theory Spec2Isabelle
  imports Main "HOL-Library.Sublist"
begin

section \<open>Strings of the host language\<close>

text \<open>
  The pipeline of \<open>utils/imageGenerator.ts\<close> works on JavaScript strings. A \<open>char\<close> stands
  for one code unit in the range 0..255 (Latin-1); every operation below is the JavaScript
  string method of the same name restricted to that range.
\<close>

definition js_whitespace :: "char \<Rightarrow> bool" where
  \<comment> \<open>WhiteSpace and LineTerminator code units below 256, as \<open>String.prototype.trim\<close> strips them.\<close>
  "js_whitespace c \<longleftrightarrow> (of_char c :: nat) \<in> {9, 10, 11, 12, 13, 32, 160}"

definition trim :: "string \<Rightarrow> string" where
  "trim s = rev (dropWhile js_whitespace (rev (dropWhile js_whitespace s)))"

definition ascii_lower :: "char \<Rightarrow> char" where
  "ascii_lower c = (let n = (of_char c :: nat) in if 65 \<le> n \<and> n \<le> 90 then char_of (n + 32) else c)"

definition lower_char :: "char \<Rightarrow> char" where
  \<comment> \<open>\<open>toLowerCase\<close> on one code unit: A-Z and the Latin-1 capitals (not the multiplication sign).\<close>
  "lower_char c = (let n = (of_char c :: nat) in
     if (65 \<le> n \<and> n \<le> 90) \<or> (192 \<le> n \<and> n \<le> 222 \<and> n \<noteq> 215) then char_of (n + 32) else c)"

definition toLowerCase :: "string \<Rightarrow> string" where
  "toLowerCase s = map lower_char s"

definition startsWith :: "string \<Rightarrow> string \<Rightarrow> bool" where
  "startsWith s p \<longleftrightarrow> take (length p) s = p"

definition endsWith :: "string \<Rightarrow> string \<Rightarrow> bool" where
  "endsWith s p \<longleftrightarrow> length p \<le> length s \<and> drop (length s - length p) s = p"

definition has_http_scheme :: "string \<Rightarrow> bool" where
  \<comment> \<open>The test \<open>/^https?:\/\//i\<close>: case-insensitive, so only ASCII letters fold onto the pattern.\<close>
  "has_http_scheme s \<longleftrightarrow>
     (let l = map ascii_lower s in take 7 l = ''http://'' \<or> take 8 l = ''https://'')"

definition strip_trailing_slash :: "string \<Rightarrow> string" where
  \<comment> \<open>\<open>s.replace(/\/$/, '')\<close>: one slash at the very end of the string is removed.\<close>
  "strip_trailing_slash s = (if s \<noteq> [] \<and> last s = CHR ''/'' then butlast s else s)"

fun get_substitution :: "string \<Rightarrow> string \<Rightarrow> string \<Rightarrow> string \<Rightarrow> string" where
  \<comment> \<open>GetSubstitution for a pattern without capture groups: matched text, the text before the
      match, the text after it, and the replacement template. Only \<open>$$\<close>, \<open>$&\<close>, \<open>$`\<close> and
      \<open>$'\<close> are special; \<open>$1\<close> and \<open>$<\<close> stay as they are when there is no group.\<close>
  "get_substitution m b a [] = []"
| "get_substitution m b a [c] = [c]"
| "get_substitution m b a (c # d # r) =
     (if c = CHR ''$'' \<and> d = CHR ''$'' then CHR ''$'' # get_substitution m b a r
      else if c = CHR ''$'' \<and> d = CHR ''&'' then m @ get_substitution m b a r
      else if c = CHR ''$'' \<and> d = CHR 0x60 then b @ get_substitution m b a r
      else if c = CHR ''$'' \<and> d = CHR 0x27 then a @ get_substitution m b a r
      else c # get_substitution m b a (d # r))"

fun replace_all_from :: "string \<Rightarrow> string \<Rightarrow> string \<Rightarrow> string \<Rightarrow> string" where
  \<comment> \<open>\<open>s.replace(/pat/g, rep)\<close> for a literal, non-empty pattern: \<open>seen\<close> is the part of the
      subject already scanned, the last argument the part still to scan.\<close>
  "replace_all_from pat rep seen [] = []"
| "replace_all_from pat rep seen (c # cs) =
     (if pat \<noteq> [] \<and> take (length pat) (c # cs) = pat
      then get_substitution pat seen (drop (length pat - 1) cs) rep
             @ replace_all_from pat rep (seen @ pat) (drop (length pat - 1) cs)
      else c # replace_all_from pat rep (seen @ [c]) cs)"

definition replace_all :: "string \<Rightarrow> string \<Rightarrow> string \<Rightarrow> string" where
  "replace_all pat rep s = replace_all_from pat rep [] s"

fun replace_first_from :: "string \<Rightarrow> string \<Rightarrow> string \<Rightarrow> string \<Rightarrow> string" where
  \<comment> \<open>\<open>s.replace(pat, rep)\<close> with a string pattern: the first occurrence only.\<close>
  "replace_first_from pat rep seen [] = []"
| "replace_first_from pat rep seen (c # cs) =
     (if take (length pat) (c # cs) = pat
      then get_substitution pat seen (drop (length pat) (c # cs)) rep @ drop (length pat) (c # cs)
      else c # replace_first_from pat rep (seen @ [c]) cs)"

definition replace_first :: "string \<Rightarrow> string \<Rightarrow> string \<Rightarrow> string" where
  "replace_first pat rep s = replace_first_from pat rep [] s"

definition digit_char :: "nat \<Rightarrow> char" where
  "digit_char d = char_of (48 + d)"

fun show_nat :: "nat \<Rightarrow> string" where
  \<comment> \<open>\<open>String(n)\<close> for a non-negative integer below the exponent notation.\<close>
  "show_nat n = (if n < 10 then [digit_char n] else show_nat (n div 10) @ [digit_char (n mod 10)])"

declare show_nat.simps [simp del]

definition padStart2 :: "string \<Rightarrow> string" where
  \<comment> \<open>\<open>s.padStart(2, '0')\<close>\<close>
  "padStart2 s = replicate (2 - length s) (CHR ''0'') @ s"

definition hex_digit :: "nat \<Rightarrow> char" where
  "hex_digit d = (if d < 10 then char_of (48 + d) else char_of (55 + d))"

definition percent_byte :: "nat \<Rightarrow> string" where
  "percent_byte b = [CHR ''%'', hex_digit (b div 16), hex_digit (b mod 16)]"

definition utf8_percent :: "char \<Rightarrow> string" where
  \<comment> \<open>The UTF-8 bytes of a code unit below 256, each percent-encoded.\<close>
  "utf8_percent c = (let n = (of_char c :: nat) in
     if n < 128 then percent_byte n
     else percent_byte (192 + n div 64) @ percent_byte (128 + n mod 64))"

definition is_alnum :: "char \<Rightarrow> bool" where
  "is_alnum c \<longleftrightarrow> (let n = (of_char c :: nat) in
     (48 \<le> n \<and> n \<le> 57) \<or> (65 \<le> n \<and> n \<le> 90) \<or> (97 \<le> n \<and> n \<le> 122))"

definition encodeURIComponent :: "string \<Rightarrow> string" where
  "encodeURIComponent s =
     concat (map (\<lambda>c. if is_alnum c \<or> c \<in> set ''-_.!~*'' \<or> c = CHR 0x27 \<or> c \<in> set ''()''
                       then [c] else utf8_percent c) s)"

definition form_urlencode :: "string \<Rightarrow> string" where
  \<comment> \<open>The byte serialiser of \<open>URLSearchParams.toString\<close>.\<close>
  "form_urlencode s =
     concat (map (\<lambda>c. if is_alnum c \<or> c \<in> set ''*-._'' then [c]
                       else if c = CHR '' '' then ''+'' else utf8_percent c) s)"

fun join_params :: "(string \<times> string) list \<Rightarrow> string" where
  "join_params [] = []"
| "join_params [(k, v)] = form_urlencode k @ ''='' @ form_urlencode v"
| "join_params ((k, v) # kvs) = form_urlencode k @ ''='' @ form_urlencode v @ ''&'' @ join_params kvs"

section \<open>The platform\<close>

text \<open>
  The source calls the browser for everything that is not string handling: the URL parser
  (\<open>new URL(s)\<close>, \<open>new URL(href, base)\<close>), \<open>fetch\<close>, the DOM parser, \<open>Math.random\<close>,
  \<open>crypto.randomUUID\<close>, the clock, the image decoder and the canvas. They are the fields of
  a platform record. The network, the random sources and the clock read and change a world
  state \<open>'w\<close> that is threaded through every call, so two fetches of one address may differ.
\<close>

record url =
  href :: string
  hostname :: string
  pathname :: string

datatype js_error = TypeError string | Error string

record response =
  resp_ok :: bool
  resp_status :: nat
  resp_type :: string
  resp_body :: string

record date_time =
  getFullYear :: nat
  getMonth :: nat
  getDate :: nat
  getHours :: nat
  getMinutes :: nat

record 'w platform =
  new_URL :: "string \<Rightarrow> url option"
  new_URL_base :: "string \<Rightarrow> string \<Rightarrow> url option"
  fetch :: "string \<Rightarrow> 'w \<Rightarrow> (js_error + response) \<times> 'w"
  anchor_hrefs :: "string \<Rightarrow> string option list"
  math_random36 :: "'w \<Rightarrow> string \<times> 'w"
  randomUUID :: "'w \<Rightarrow> string \<times> 'w"
  new_Date :: "'w \<Rightarrow> date_time"
  base64 :: "string \<Rightarrow> string"
  image_dimensions :: "string \<Rightarrow> nat \<times> nat"
  canvas_jpeg :: "nat \<Rightarrow> nat \<Rightarrow> string \<Rightarrow> string"

text \<open>
  \<open>new_URL s\<close> is \<open>None\<close> where the constructor throws. \<open>fetch\<close> answers \<open>Inl\<close> where the
  promise of \<open>fetch\<close>, or the later promise of the body (\<open>text()\<close>, \<open>blob()\<close>), rejects.
  \<open>anchor_hrefs html\<close> is \<open>getAttribute('href')\<close> of every \<open>a\<close> element of the parsed
  document, in document order. \<open>image_dimensions\<close> is \<open>getImageDimensions\<close> (0 by 0 when the
  image does not load) and \<open>canvas_jpeg w h label\<close> is \<open>createErrorPlaceholder\<close>.
\<close>

section \<open>URL Normalizer\<close>

definition PROXY_BASE :: string where
  "PROXY_BASE = ''https://corsproxy.io/?''"

definition with_scheme :: "string \<Rightarrow> string" where
  "with_scheme s = (if \<not> has_http_scheme s then ''https://'' @ s else s)"

definition normalizeUrl :: "'w platform \<Rightarrow> string \<Rightarrow> string" where
  "normalizeUrl pf u =
     (let normalized = with_scheme (trim u)
      in case new_URL pf normalized of
           Some parsed \<Rightarrow> href parsed
         | None \<Rightarrow> u)"

section \<open>Link Crawler\<close>

type_synonym crawl_node = "string \<times> nat"

definition skip_href :: "string option \<Rightarrow> bool" where
  \<comment> \<open>A missing or empty \<open>href\<close>, a fragment and the pseudo-links are passed over.\<close>
  "skip_href a = (case a of
       None \<Rightarrow> True
     | Some h \<Rightarrow> h = [] \<or> startsWith h ''#'' \<or> startsWith h ''mailto:'' \<or> startsWith h ''tel:''
                  \<or> startsWith h ''javascript:'')"

definition maxLinksPerLevel :: nat where
  "maxLinksPerLevel = 4"

fun scan_anchors ::
  "'w platform \<Rightarrow> string \<Rightarrow> string set \<Rightarrow> crawl_node \<Rightarrow> string option list \<Rightarrow> nat \<Rightarrow> crawl_node list"
where
  \<comment> \<open>The loop over the anchors of one page: the nodes it pushes on the queue, in order.
      \<open>foundCount\<close> is the last argument; \<open>visited\<close> does not change during the loop.\<close>
  "scan_anchors pf baseDomain visited current [] foundCount = []"
| "scan_anchors pf baseDomain visited current (a # anchors) foundCount =
     (if skip_href a then scan_anchors pf baseDomain visited current anchors foundCount
      else case new_URL_base pf (the a) (fst current) of
          None \<Rightarrow> scan_anchors pf baseDomain visited current anchors foundCount
        | Some resolvedUrl \<Rightarrow>
            if hostname resolvedUrl = baseDomain
               \<and> strip_trailing_slash (href resolvedUrl) \<notin> visited
               \<and> foundCount < maxLinksPerLevel
            then (href resolvedUrl, snd current + 1)
                   # scan_anchors pf baseDomain visited current anchors (foundCount + 1)
            else scan_anchors pf baseDomain visited current anchors foundCount)"

definition find_links ::
  "'w platform \<Rightarrow> string \<Rightarrow> string set \<Rightarrow> crawl_node \<Rightarrow> 'w \<Rightarrow> crawl_node list \<times> 'w"
where
  \<comment> \<open>The \<open>try\<close> block of one node: the page is fetched through the proxy; a rejected fetch
      or a status that is not ok leaves the node without children.\<close>
  "find_links pf baseDomain visited current w =
     (case fetch pf (PROXY_BASE @ encodeURIComponent (fst current)) w of
        (Inl e, w') \<Rightarrow> ([], w')
      | (Inr resp, w') \<Rightarrow>
          if \<not> resp_ok resp then ([], w')
          else (scan_anchors pf baseDomain visited current (anchor_hrefs pf (resp_body resp)) 0, w'))"

definition node_weight :: "int \<Rightarrow> crawl_node \<Rightarrow> nat" where
  \<comment> \<open>A bound on the nodes that can still come from a queued node.\<close>
  "node_weight depth n = 5 ^ nat (depth - int (snd n))"

definition queue_weight :: "int \<Rightarrow> crawl_node list \<Rightarrow> nat" where
  "queue_weight depth q = sum_list (map (node_weight depth) q)"

lemma scan_anchors_length:
  "length (scan_anchors pf bd visited current anchors found) \<le> maxLinksPerLevel - found"
proof (induction anchors arbitrary: found)
  case Nil
  show ?case by simp
next
  case (Cons a anchors)
  have same: "length (scan_anchors pf bd visited current anchors found) \<le> maxLinksPerLevel - found"
    by (rule Cons.IH)
  have more: "found < maxLinksPerLevel \<Longrightarrow>
      Suc (length (scan_anchors pf bd visited current anchors (found + 1))) \<le> maxLinksPerLevel - found"
    using Cons.IH [of "found + 1"] by simp
  show ?case
    using same more by (simp split: option.splits)
qed

lemma scan_anchors_level:
  "n \<in> set (scan_anchors pf bd visited current anchors found) \<Longrightarrow> snd n = snd current + 1"
  by (induction anchors arbitrary: found) (auto split: option.splits if_splits)

lemma find_links_length: "length (fst (find_links pf bd visited current w)) \<le> 4"
  using scan_anchors_length [of pf bd visited current _ 0]
  by (auto simp: find_links_def maxLinksPerLevel_def split: prod.splits sum.splits)

lemma find_links_level:
  "n \<in> set (fst (find_links pf bd visited current w)) \<Longrightarrow> snd n = snd current + 1"
  by (auto simp: find_links_def split: prod.splits sum.splits if_splits dest: scan_anchors_level)

lemma queue_weight_children:
  assumes "\<And>n. n \<in> set cs \<Longrightarrow> snd n = l + 1"
  shows "queue_weight depth cs = length cs * 5 ^ nat (depth - int (l + 1))"
  using assms by (induction cs) (auto simp: queue_weight_def node_weight_def)

lemma queue_weight_find_links:
  assumes "int (snd current) < depth"
  shows "queue_weight depth (fst (find_links pf bd visited current w)) < node_weight depth current"
proof -
  let ?cs = "fst (find_links pf bd visited current w)"
  let ?k = "nat (depth - int (snd current + 1))"
  have "queue_weight depth ?cs = length ?cs * 5 ^ ?k"
    by (rule queue_weight_children) (rule find_links_level)
  also have "\<dots> \<le> 4 * 5 ^ ?k"
    by (simp add: find_links_length)
  also have "\<dots> < 5 * 5 ^ ?k"
    by simp
  also have "\<dots> = 5 ^ Suc ?k"
    by simp
  also have "Suc ?k = nat (depth - int (snd current))"
    using assms by simp
  finally show ?thesis
    by (simp add: node_weight_def)
qed

lemma node_weight_pos: "0 < node_weight depth n"
  by (simp add: node_weight_def)

function crawl_loop ::
  "'w platform \<Rightarrow> string \<Rightarrow> int \<Rightarrow> crawl_node list \<Rightarrow> string set \<Rightarrow> string list \<Rightarrow> 'w
     \<Rightarrow> string list \<times> 'w"
where
  \<comment> \<open>The \<open>while (queue.length > 0)\<close> loop: \<open>queue.shift()\<close> takes the head.\<close>
  "crawl_loop pf baseDomain depth [] visited result w = (result, w)"
| "crawl_loop pf baseDomain depth (current # queue) visited result w =
     (if strip_trailing_slash (fst current) \<in> visited
      then crawl_loop pf baseDomain depth queue visited result w
      else if int (snd current) < depth
      then crawl_loop pf baseDomain depth
             (queue @ fst (find_links pf baseDomain
                             (insert (strip_trailing_slash (fst current)) visited) current w))
             (insert (strip_trailing_slash (fst current)) visited)
             (result @ [fst current])
             (snd (find_links pf baseDomain
                     (insert (strip_trailing_slash (fst current)) visited) current w))
      else crawl_loop pf baseDomain depth queue
             (insert (strip_trailing_slash (fst current)) visited)
             (result @ [fst current]) w)"
  by pat_completeness auto
termination
proof (relation "measure (\<lambda>(pf, baseDomain, depth, queue, visited, result, w). queue_weight depth queue)")
  show "wf (measure (\<lambda>(pf :: 'w platform, baseDomain :: string, depth, queue, visited :: string set,
              result :: string list, w :: 'w). queue_weight depth queue))"
    by simp
next
  fix pf :: "'w platform" and baseDomain :: string and depth and current :: crawl_node and queue
    and visited :: "string set" and result :: "string list" and w :: 'w
  show "((pf, baseDomain, depth, queue, visited, result, w),
         (pf, baseDomain, depth, current # queue, visited, result, w))
        \<in> measure (\<lambda>(pf, baseDomain, depth, queue, visited, result, w). queue_weight depth queue)"
    using node_weight_pos [of depth current] by (simp add: queue_weight_def)
next
  fix pf :: "'w platform" and baseDomain :: string and depth and current :: crawl_node and queue
    and visited :: "string set" and result :: "string list" and w :: 'w
  assume "int (snd current) < depth"
  then show "((pf, baseDomain, depth,
          queue @ fst (find_links pf baseDomain (insert (strip_trailing_slash (fst current)) visited) current w),
          insert (strip_trailing_slash (fst current)) visited, result @ [fst current],
          snd (find_links pf baseDomain (insert (strip_trailing_slash (fst current)) visited) current w)),
         (pf, baseDomain, depth, current # queue, visited, result, w))
        \<in> measure (\<lambda>(pf, baseDomain, depth, queue, visited, result, w). queue_weight depth queue)"
    using queue_weight_find_links [of current depth pf baseDomain
            "insert (strip_trailing_slash (fst current)) visited" w]
      queue_weight_children
    by (simp add: queue_weight_def)
next
  fix pf :: "'w platform" and baseDomain :: string and depth and current :: crawl_node and queue
    and visited :: "string set" and result :: "string list" and w :: 'w
  show "((pf, baseDomain, depth, queue, insert (strip_trailing_slash (fst current)) visited,
          result @ [fst current], w),
         (pf, baseDomain, depth, current # queue, visited, result, w))
        \<in> measure (\<lambda>(pf, baseDomain, depth, queue, visited, result, w). queue_weight depth queue)"
    using node_weight_pos [of depth current] by (simp add: queue_weight_def)
qed

definition crawlForLinks ::
  "'w platform \<Rightarrow> string \<Rightarrow> int \<Rightarrow> 'w \<Rightarrow> (js_error + string list) \<times> 'w"
where
  \<comment> \<open>\<open>new URL(baseUrl).hostname\<close> throws on a string that is no URL, before the loop starts.\<close>
  "crawlForLinks pf baseUrl depth w =
     (case new_URL pf baseUrl of
        None \<Rightarrow> (Inl (TypeError ''Invalid URL''), w)
      | Some base \<Rightarrow>
          (let (result, w') = crawl_loop pf (hostname base) depth [(baseUrl, 1)] {} [] w
           in (Inr result, w')))"

section \<open>Provider Fallback Capturer\<close>

datatype ViewportType = Desktop | Mobile

definition viewport_tag :: "ViewportType \<Rightarrow> string" where
  "viewport_tag t = (case t of Desktop \<Rightarrow> ''desktop'' | Mobile \<Rightarrow> ''mobile'')"

datatype provider = Microlink | ThumIo | Mshots

definition providers :: "provider list" where
  "providers = [Microlink, ThumIo, Mshots]"

definition provider_name :: "provider \<Rightarrow> string" where
  "provider_name p = (case p of Microlink \<Rightarrow> ''microlink'' | ThumIo \<Rightarrow> ''thum.io'' | Mshots \<Rightarrow> ''mshots'')"

definition useProxy :: "provider \<Rightarrow> bool" where
  "useProxy p = (case p of Microlink \<Rightarrow> False | ThumIo \<Rightarrow> True | Mshots \<Rightarrow> True)"

record capture_request =
  rq_url :: string
  rq_width :: nat
  rq_height :: nat
  rq_type :: ViewportType
  rq_fullPage :: bool

definition getUrl :: "'w platform \<Rightarrow> provider \<Rightarrow> capture_request \<Rightarrow> 'w \<Rightarrow> string \<times> 'w" where
  \<comment> \<open>The three \<open>getUrl\<close> closures; only the one of mshots draws a random cache buster.\<close>
  "getUrl pf p rq w = (case p of
       Microlink \<Rightarrow>
         (''https://api.microlink.io/?'' @ join_params
            ([(''url'', rq_url rq), (''screenshot'', ''true''), (''meta'', ''false''),
              (''embed'', ''screenshot.url''),
              (''viewport.width'', show_nat (rq_width rq)),
              (''viewport.height'', show_nat (rq_height rq)),
              (''viewport.isMobile'', if rq_type rq = Mobile then ''true'' else ''false''),
              (''viewport.deviceScaleFactor'', if rq_type rq = Mobile then ''2'' else ''1''),
              (''waitFor'', ''3s'')]
             @ (if rq_fullPage rq then [(''screenshot.fullPage'', ''true'')] else [])), w)
     | ThumIo \<Rightarrow>
         (''https://image.thum.io/get/width/'' @ show_nat (rq_width rq)
            @ (if rq_fullPage rq then ''/fullpage'' else ''/crop/'' @ show_nat (rq_height rq))
            @ ''/noanimate/'' @ rq_url rq, w)
     | Mshots \<Rightarrow>
         (let (cacheBuster, w') = math_random36 pf w;
              h = (if rq_fullPage rq then 4000 else rq_height rq)
          in (''https://s0.wp.com/mshots/v1/'' @ encodeURIComponent (rq_url rq)
                @ ''?w='' @ show_nat (rq_width rq) @ ''&h='' @ show_nat h @ ''&v='' @ cacheBuster, w')))"

definition strategy :: "ViewportType \<Rightarrow> bool \<Rightarrow> provider list" where
  "strategy t fullPage =
     (if t = Mobile then [providers ! 0, providers ! 1]
      else if fullPage then [providers ! 0, providers ! 1]
      else [providers ! 2, providers ! 0, providers ! 1])"

fun includes_str :: "string \<Rightarrow> string \<Rightarrow> bool" where
  \<comment> \<open>\<open>s.indexOf(p) !== -1\<close>; the subject is the second argument.\<close>
  "includes_str p [] \<longleftrightarrow> p = []"
| "includes_str p (c # cs) \<longleftrightarrow> take (length p) (c # cs) = p \<or> includes_str p cs"

definition valid_image :: "response \<Rightarrow> bool" where
  \<comment> \<open>What \<open>fetchImageAsBase64\<close> accepts: an ok status, at least 100 bytes, an image type.\<close>
  "valid_image resp \<longleftrightarrow>
     resp_ok resp \<and> \<not> (length (resp_body resp) < 100 \<or> \<not> includes_str ''image'' (resp_type resp))"

definition readAsDataURL :: "'w platform \<Rightarrow> response \<Rightarrow> string" where
  \<comment> \<open>The result of the \<open>FileReader\<close> on the blob of the response. The blob is in memory;
      a read error of the reader (\<open>reader.onerror\<close>) is not part of the model.\<close>
  "readAsDataURL pf resp = ''data:'' @ resp_type resp @ '';base64,'' @ base64 pf (resp_body resp)"

definition fetchImageAsBase64 :: "'w platform \<Rightarrow> string \<Rightarrow> 'w \<Rightarrow> (js_error + string) \<times> 'w" where
  "fetchImageAsBase64 pf u w =
     (case fetch pf u w of
        (Inl e, w') \<Rightarrow> (Inl e, w')
      | (Inr resp, w') \<Rightarrow>
          if \<not> resp_ok resp then (Inl (Error (''Status '' @ show_nat (resp_status resp))), w')
          else if length (resp_body resp) < 100 \<or> \<not> includes_str ''image'' (resp_type resp)
          then (Inl (Error ''Invalid image data received''), w')
          else (Inr (readAsDataURL pf resp), w'))"

definition attempt :: "'w platform \<Rightarrow> capture_request \<Rightarrow> provider \<Rightarrow> 'w \<Rightarrow> (js_error + string) \<times> 'w" where
  \<comment> \<open>The body of the \<open>try\<close> for one provider.\<close>
  "attempt pf rq p w =
     (let (providerUrl, w') = getUrl pf p rq w;
          urlToFetch = (if useProxy p then PROXY_BASE @ encodeURIComponent providerUrl else providerUrl)
      in fetchImageAsBase64 pf urlToFetch w')"

fun try_providers ::
  "'w platform \<Rightarrow> capture_request \<Rightarrow> provider list \<Rightarrow> js_error option \<Rightarrow> 'w
     \<Rightarrow> (js_error + string) \<times> provider list \<times> 'w"
where
  \<comment> \<open>The \<open>for (const provider of strategy)\<close> loop with \<open>lastError\<close>. The second component of
      the result is a trace that the source does not keep: the providers attempted, in order.\<close>
  "try_providers pf rq [] lastError w =
     (Inl (case lastError of Some e \<Rightarrow> e | None \<Rightarrow> Error ''All screenshot providers failed''), [], w)"
| "try_providers pf rq (p # ps) lastError w =
     (case attempt pf rq p w of
        (Inr dataUrl, w') \<Rightarrow> (Inr dataUrl, [p], w')
      | (Inl e, w') \<Rightarrow>
          (let (r, tried, w'') = try_providers pf rq ps (Some e) w' in (r, p # tried, w'')))"

definition captureRealScreenshotWithFallback ::
  "'w platform \<Rightarrow> string \<Rightarrow> nat \<Rightarrow> nat \<Rightarrow> ViewportType \<Rightarrow> bool \<Rightarrow> 'w
     \<Rightarrow> (js_error + string) \<times> provider list \<times> 'w"
where
  "captureRealScreenshotWithFallback pf u width height t fullPage w =
     try_providers pf
       \<lparr>rq_url = u, rq_width = width, rq_height = height, rq_type = t, rq_fullPage = fullPage\<rparr>
       (strategy t fullPage) None w"

section \<open>Filename Synthesizer\<close>

record viewport =
  vp_type :: ViewportType
  vp_width :: nat
  vp_height :: nat

definition cleanHostname :: "string \<Rightarrow> string" where
  \<comment> \<open>\<open>urlObj.hostname.replace('www.', '')\<close>\<close>
  "cleanHostname h = replace_first ''www.'' [] h"

definition cleanPath :: "string \<Rightarrow> string" where
  \<comment> \<open>\<open>urlObj.pathname === '/' ? '' : urlObj.pathname.replace(/\//g, '-')\<close>\<close>
  "cleanPath p = (if p = ''/'' then [] else replace_all ''/'' ''-'' p)"

definition safe_char :: "char \<Rightarrow> bool" where
  \<comment> \<open>The class \<open>[a-zA-Z0-9-_. \[\]()]\<close> of the sanitising expression.\<close>
  "safe_char c \<longleftrightarrow> is_alnum c \<or> c \<in> set ''-_. []()''"

definition sanitize :: "string \<Rightarrow> string" where
  "sanitize s = map (\<lambda>c. if safe_char c then c else CHR ''_'') s"

definition or_else :: "nat \<Rightarrow> nat \<Rightarrow> nat" where
  \<comment> \<open>\<open>a || b\<close> on numbers: zero is falsy.\<close>
  "or_else a b = (if a = 0 then b else a)"

definition substitute ::
  "string \<Rightarrow> string \<Rightarrow> string \<Rightarrow> date_time \<Rightarrow> viewport \<Rightarrow> nat \<times> nat \<Rightarrow> nat \<Rightarrow> string"
where
  \<comment> \<open>The chain of eight \<open>replace\<close> calls, in the order of the source.\<close>
  "substitute template host path now vp actualDims currentOp =
     replace_all ''{index}'' (show_nat currentOp)
      (replace_all ''{height}'' (show_nat (or_else (snd actualDims) (vp_height vp)))
       (replace_all ''{width}'' (show_nat (or_else (fst actualDims) (vp_width vp)))
        (replace_all ''{viewport}'' (viewport_tag (vp_type vp))
         (replace_all ''{time}''
            (padStart2 (show_nat (getHours now)) @ ''-'' @ padStart2 (show_nat (getMinutes now)))
          (replace_all ''{date}''
             (show_nat (getFullYear now) @ ''-'' @ padStart2 (show_nat (getMonth now + 1))
                @ ''-'' @ padStart2 (show_nat (getDate now)))
           (replace_all ''{path}'' path
            (replace_all ''{domain}'' host template)))))))"

definition render_filename ::
  "string \<Rightarrow> string \<Rightarrow> string \<Rightarrow> date_time \<Rightarrow> viewport \<Rightarrow> nat \<times> nat \<Rightarrow> nat \<Rightarrow> string"
where
  \<comment> \<open>The block between the FILENAME GENERATION marks of \<open>generateScreenshots\<close>.\<close>
  "render_filename filenameTemplate host path now vp actualDims currentOp =
     (let template = (if filenameTemplate \<noteq> [] \<and> trim filenameTemplate \<noteq> []
                      then filenameTemplate else ''{domain}_{date}_{viewport}'');
          filename = sanitize (substitute template host path now vp actualDims currentOp)
      in if \<not> endsWith (toLowerCase filename) ''.jpg'' \<and> \<not> endsWith (toLowerCase filename) ''.png''
         then filename @ ''.jpg'' else filename)"

section \<open>Capture Orchestrator\<close>

record Resolution =
  res_width :: nat
  res_height :: nat
  res_label :: string

record CaptureConfig =
  cfg_desktop :: bool
  cfg_mobile :: bool
  cfg_desktopRes :: "Resolution option"
  cfg_mobileRes :: "Resolution option"
  cfg_fullPage :: bool
  cfg_autoDownload :: bool
  cfg_depth :: int
  cfg_filenameTemplate :: string

record GeneratedImage =
  img_id :: string
  img_url :: string
  img_dataUrl :: string
  img_viewport :: ViewportType
  img_width :: nat
  img_height :: nat
  img_filename :: string

definition opt_or :: "nat option \<Rightarrow> nat \<Rightarrow> nat" where
  \<comment> \<open>\<open>res?.field || d\<close>: a missing resolution and a zero both give the default.\<close>
  "opt_or v d = (case v of None \<Rightarrow> d | Some n \<Rightarrow> or_else n d)"

definition viewports_of :: "CaptureConfig \<Rightarrow> viewport list" where
  "viewports_of config =
     (if cfg_desktop config
      then [\<lparr>vp_type = Desktop,
             vp_width = opt_or (map_option res_width (cfg_desktopRes config)) 1440,
             vp_height = opt_or (map_option res_height (cfg_desktopRes config)) 900\<rparr>]
      else [])
     @ (if cfg_mobile config
        then [\<lparr>vp_type = Mobile,
               vp_width = opt_or (map_option res_width (cfg_mobileRes config)) 393,
               vp_height = opt_or (map_option res_height (cfg_mobileRes config)) 852\<rparr>]
        else [])"

type_synonym 'w capture_state = "GeneratedImage list \<times> nat \<times> 'w"

definition capture_pair ::
  "'w platform \<Rightarrow> CaptureConfig \<Rightarrow> date_time \<Rightarrow> string \<Rightarrow> string \<Rightarrow> string \<Rightarrow> viewport
     \<Rightarrow> 'w capture_state \<Rightarrow> 'w capture_state"
where
  \<comment> \<open>The body of the inner loop for one page and one viewport. The state is the list
      \<open>images\<close>, the counter \<open>currentOp\<close> and the world. The progress callback and the
      delays are left out.\<close>
  "capture_pair pf config now u host path vp st =
     (case st of (images, currentOp0, w) \<Rightarrow>
        (let currentOp = currentOp0 + 1
         in case captureRealScreenshotWithFallback pf u (vp_width vp) (vp_height vp) (vp_type vp)
                   (cfg_fullPage config) w of
              (Inr dataUrl, tried, w1) \<Rightarrow>
                if dataUrl \<noteq> [] then
                  (let actualDims = image_dimensions pf dataUrl;
                       filename = render_filename (cfg_filenameTemplate config) host path now vp
                                    actualDims currentOp;
                       (uuid, w2) = randomUUID pf w1
                   in (images @ [\<lparr>img_id = uuid, img_url = u, img_dataUrl = dataUrl,
                                   img_viewport = vp_type vp,
                                   img_width = or_else (fst actualDims) (vp_width vp),
                                   img_height = or_else (snd actualDims) (vp_height vp),
                                   img_filename = filename\<rparr>], currentOp, w2))
                else (images, currentOp, w1)
            | (Inl e, tried, w1) \<Rightarrow>
                (let placeholder = canvas_jpeg pf (vp_width vp) (vp_height vp) u;
                     (uuid, w2) = randomUUID pf w1
                 in (images @ [\<lparr>img_id = uuid, img_url = u, img_dataUrl = placeholder,
                                 img_viewport = vp_type vp,
                                 img_width = vp_width vp,
                                 img_height = vp_height vp,
                                 img_filename = ''error_'' @ host @ ''_'' @ viewport_tag (vp_type vp)
                                                  @ ''.jpg''\<rparr>], currentOp, w2))))"

fun capture_viewports ::
  "'w platform \<Rightarrow> CaptureConfig \<Rightarrow> date_time \<Rightarrow> string \<Rightarrow> string \<Rightarrow> string \<Rightarrow> viewport list
     \<Rightarrow> 'w capture_state \<Rightarrow> 'w capture_state"
where
  "capture_viewports pf config now u host path [] st = st"
| "capture_viewports pf config now u host path (vp # vps) st =
     capture_viewports pf config now u host path vps (capture_pair pf config now u host path vp st)"

fun capture_pages ::
  "'w platform \<Rightarrow> CaptureConfig \<Rightarrow> date_time \<Rightarrow> viewport list \<Rightarrow> string list
     \<Rightarrow> 'w capture_state \<Rightarrow> js_error + 'w capture_state"
where
  \<comment> \<open>The outer loop; \<open>new URL(url)\<close> stands outside every \<open>try\<close>.\<close>
  "capture_pages pf config now vps [] st = Inr st"
| "capture_pages pf config now vps (u # urls) st =
     (case new_URL pf u of
        None \<Rightarrow> Inl (TypeError ''Invalid URL'')
      | Some urlObj \<Rightarrow>
          capture_pages pf config now vps urls
            (capture_viewports pf config now u (cleanHostname (hostname urlObj))
               (cleanPath (pathname urlObj)) vps st))"

definition urlsToCapture :: "'w platform \<Rightarrow> string \<Rightarrow> CaptureConfig \<Rightarrow> 'w \<Rightarrow> string list \<times> 'w" where
  \<comment> \<open>The crawl phase: the crawler's list, or the normalised root alone when the crawler
      throws or returns nothing.\<close>
  "urlsToCapture pf rootUrl config w =
     (let normalizedRoot = normalizeUrl pf rootUrl
      in case crawlForLinks pf normalizedRoot (cfg_depth config) w of
           (Inr crawled, w') \<Rightarrow> (if crawled \<noteq> [] then crawled else [normalizedRoot], w')
         | (Inl e, w') \<Rightarrow> ([normalizedRoot], w'))"

definition generateScreenshots ::
  "'w platform \<Rightarrow> string \<Rightarrow> CaptureConfig \<Rightarrow> 'w \<Rightarrow> js_error + GeneratedImage list" where
  "generateScreenshots pf rootUrl config w =
     (let (urls, w1) = urlsToCapture pf rootUrl config w;
          now = new_Date pf w1;
          viewports = viewports_of config
      in case capture_pages pf config now viewports urls ([], 0, w1) of
           Inl e \<Rightarrow> Inl e
         | Inr (images, currentOp, w2) \<Rightarrow> Inr images)"

section \<open>An example platform\<close>

text \<open>
  The examples below run the pipeline on a small platform. Its URL parser covers lower-case
  \<open>http\<close> and \<open>https\<close> addresses with a host of letters, dots and hyphens and a plain path,
  and rejects everything else (an empty host among it, as the browser does). Its network is
  scripted: the world is the list of answers still to come, and each fetch takes the next.
\<close>

definition demo_host_char :: "char \<Rightarrow> bool" where
  "demo_host_char c \<longleftrightarrow> (let n = (of_char c :: nat) in (97 \<le> n \<and> n \<le> 122) \<or> n = 45 \<or> n = 46)"

definition demo_path_char :: "char \<Rightarrow> bool" where
  "demo_path_char c \<longleftrightarrow> is_alnum c \<or> c \<in> set ''/-_$&''"

definition demo_parse_after :: "string \<Rightarrow> string \<Rightarrow> url option" where
  "demo_parse_after scheme rest =
     (let h = takeWhile (\<lambda>c. c \<noteq> CHR ''/'') rest;
          p = dropWhile (\<lambda>c. c \<noteq> CHR ''/'') rest;
          p' = (if p = [] then ''/'' else p)
      in if h \<noteq> [] \<and> list_all demo_host_char h \<and> list_all demo_path_char p
         then Some \<lparr>href = scheme @ h @ p', hostname = h, pathname = p'\<rparr>
         else None)"

definition demo_new_URL :: "string \<Rightarrow> url option" where
  "demo_new_URL s =
     (if take 8 s = ''https://'' then demo_parse_after ''https://'' (drop 8 s)
      else if take 7 s = ''http://'' then demo_parse_after ''http://'' (drop 7 s)
      else None)"

definition demo_new_URL_base :: "string \<Rightarrow> string \<Rightarrow> url option" where
  \<comment> \<open>An absolute reference, or a path resolved against the origin of the base.\<close>
  "demo_new_URL_base h b =
     (case demo_new_URL h of
        Some u \<Rightarrow> Some u
      | None \<Rightarrow>
          if take 1 h = ''/'' then
            (case demo_new_URL b of
               None \<Rightarrow> None
             | Some bu \<Rightarrow> demo_new_URL (take (length (href bu) - length (pathname bu)) (href bu) @ h))
          else None)"

fun demo_words :: "string \<Rightarrow> string \<Rightarrow> string list" where
  "demo_words acc [] = (if acc = [] then [] else [acc])"
| "demo_words acc (c # cs) =
     (if c = CHR '' '' then (if acc = [] then demo_words [] cs else acc # demo_words [] cs)
      else demo_words (acc @ [c]) cs)"

type_synonym script = "(js_error + response) list"

definition demo_platform :: "script platform" where
  "demo_platform =
     \<lparr>new_URL = demo_new_URL,
      new_URL_base = demo_new_URL_base,
      fetch = (\<lambda>u w. case w of [] \<Rightarrow> (Inl (TypeError ''Failed to fetch''), [])
                                | r # rs \<Rightarrow> (r, rs)),
      anchor_hrefs = (\<lambda>html. map Some (demo_words [] html)),
      math_random36 = (\<lambda>w. (''k3x9q'', w)),
      randomUUID = (\<lambda>w. (''uuid-'' @ show_nat (length w), w)),
      new_Date = (\<lambda>w. \<lparr>getFullYear = 2024, getMonth = 2, getDate = 7, getHours = 9, getMinutes = 5\<rparr>),
      base64 = (\<lambda>body. replicate (length body) (CHR ''A'')),
      image_dimensions = (\<lambda>dataUrl. (1440, 3000)),
      canvas_jpeg = (\<lambda>width height label. ''data:image/jpeg;base64,placeholder'')\<rparr>"

definition page :: "string \<Rightarrow> js_error + response" where
  \<comment> \<open>An answer with status 200 and an HTML body whose anchors are the words of \<open>links\<close>.\<close>
  "page links = Inr \<lparr>resp_ok = True, resp_status = 200, resp_type = ''text/html'', resp_body = links\<rparr>"

definition jpeg :: "nat \<Rightarrow> js_error + response" where
  \<comment> \<open>An answer with status 200 and an image body of \<open>n\<close> bytes.\<close>
  "jpeg n = Inr \<lparr>resp_ok = True, resp_status = 200, resp_type = ''image/jpeg'',
                  resp_body = replicate n (CHR ''x'')\<rparr>"

definition status :: "nat \<Rightarrow> js_error + response" where
  \<comment> \<open>An answer with an error status and an empty body.\<close>
  "status n = Inr \<lparr>resp_ok = False, resp_status = n, resp_type = ''text/plain'', resp_body = []\<rparr>"

section \<open>URL Normalizer: properties\<close>

lemma demo_trim_example: "trim '' not a url '' = ''not a url''"
  by (simp add: trim_def js_whitespace_def)

lemma demo_unparsable_example: "new_URL demo_platform (with_scheme ''not a url'') = None"
  by (simp add: demo_platform_def demo_new_URL_def demo_parse_after_def with_scheme_def
      has_http_scheme_def ascii_lower_def demo_host_char_def)

text \<open>
  C4, as the specification words it: when the trimmed and scheme-prefixed input does not
  parse, the normaliser returns the trimmed input. The source returns its argument \<open>url\<close>,
  not the trimmed copy: on \<open>" not a url "\<close> it returns the string with both blanks.
\<close>

theorem normalizeUrl_trimmed_counterexample:
  "new_URL demo_platform (with_scheme (trim '' not a url '')) = None
   \<and> normalizeUrl demo_platform '' not a url '' \<noteq> trim '' not a url ''"
  by (simp add: normalizeUrl_def demo_trim_example demo_unparsable_example)

text \<open>
  C4, amended: when the trimmed and scheme-prefixed input does not parse, the normaliser
  returns its input exactly as given, leading and trailing white space included. It never
  throws: \<open>normalizeUrl\<close> has a string for every input.
\<close>

theorem normalizeUrl_unparsable:
  "new_URL pf (with_scheme (trim u)) = None \<Longrightarrow> normalizeUrl pf u = u"
  by (simp add: normalizeUrl_def)

theorem normalizeUrl_unparsable_witness:
  "new_URL demo_platform (with_scheme (trim '' not a url '')) = None
   \<and> normalizeUrl demo_platform '' not a url '' = '' not a url ''"
  using normalizeUrl_unparsable [of demo_platform "'' not a url ''"]
  by (simp add: demo_trim_example demo_unparsable_example)

section \<open>Provider Fallback Capturer: properties\<close>

text \<open>
  The answer the network gives to the request of provider \<open>p\<close> in world \<open>w\<close>, whether the
  capturer accepts it, the world after a run of attempts, and a run in which every
  attempt is turned down.
\<close>

definition fetched :: "'w platform \<Rightarrow> capture_request \<Rightarrow> provider \<Rightarrow> 'w \<Rightarrow> js_error + response" where
  "fetched pf rq p w =
     (let (providerUrl, w') = getUrl pf p rq w;
          urlToFetch = (if useProxy p then PROXY_BASE @ encodeURIComponent providerUrl else providerUrl)
      in fst (fetch pf urlToFetch w'))"

definition accepted :: "'w platform \<Rightarrow> capture_request \<Rightarrow> provider \<Rightarrow> 'w \<Rightarrow> bool" where
  "accepted pf rq p w = (case fetched pf rq p w of Inl e \<Rightarrow> False | Inr resp \<Rightarrow> valid_image resp)"

fun world_after :: "'w platform \<Rightarrow> capture_request \<Rightarrow> provider list \<Rightarrow> 'w \<Rightarrow> 'w" where
  "world_after pf rq [] w = w"
| "world_after pf rq (p # ps) w = world_after pf rq ps (snd (attempt pf rq p w))"

fun all_fail :: "'w platform \<Rightarrow> capture_request \<Rightarrow> provider list \<Rightarrow> 'w \<Rightarrow> bool" where
  "all_fail pf rq [] w = True"
| "all_fail pf rq (p # ps) w = (\<not> accepted pf rq p w \<and> all_fail pf rq ps (snd (attempt pf rq p w)))"

lemma attempt_Inr_iff:
  "fst (attempt pf rq p w) = Inr d \<longleftrightarrow>
     (\<exists>resp. fetched pf rq p w = Inr resp \<and> valid_image resp \<and> d = readAsDataURL pf resp)"
  by (auto simp: attempt_def fetched_def fetchImageAsBase64_def valid_image_def
      split: prod.splits sum.splits if_splits)

lemma attempt_Inl_iff: "isl (fst (attempt pf rq p w)) \<longleftrightarrow> \<not> accepted pf rq p w"
  by (auto simp: attempt_def fetched_def accepted_def fetchImageAsBase64_def valid_image_def
      split: prod.splits sum.splits if_splits)

lemma try_providers_Inr:
  "try_providers pf rq ps le w = (Inr d, tried, w') \<Longrightarrow>
     \<exists>fs p rest. ps = fs @ p # rest \<and> tried = fs @ [p] \<and> all_fail pf rq fs w
        \<and> attempt pf rq p (world_after pf rq fs w) = (Inr d, w')"
proof (induction ps arbitrary: le w tried)
  case Nil
  then show ?case by simp
next
  case (Cons q ps)
  obtain r w1 where a: "attempt pf rq q w = (r, w1)" by (cases "attempt pf rq q w")
  show ?case
  proof (cases r)
    case (Inr d')
    with a Cons.prems have "d' = d" "tried = [q]" "w1 = w'" by auto
    with a Inr have "q # ps = [] @ q # ps \<and> tried = [] @ [q] \<and> all_fail pf rq [] w
        \<and> attempt pf rq q (world_after pf rq [] w) = (Inr d, w')" by simp
    then show ?thesis by blast
  next
    case (Inl e)
    obtain r2 t2 w2 where t: "try_providers pf rq ps (Some e) w1 = (r2, t2, w2)"
      by (cases "try_providers pf rq ps (Some e) w1") 
    with a Inl Cons.prems have eq: "r2 = Inr d" "tried = q # t2" "w2 = w'" by auto
    from Cons.IH [of "Some e" w1 t2] t eq
    obtain fs p rest where f: "ps = fs @ p # rest" "t2 = fs @ [p]" "all_fail pf rq fs w1"
        "attempt pf rq p (world_after pf rq fs w1) = (Inr d, w')" by blast
    have nf: "\<not> accepted pf rq q w" using a Inl attempt_Inl_iff [of pf rq q w] by simp
    have "q # ps = (q # fs) @ p # rest \<and> tried = (q # fs) @ [p] \<and> all_fail pf rq (q # fs) w
        \<and> attempt pf rq p (world_after pf rq (q # fs) w) = (Inr d, w')"
      using f eq nf a by simp
    then show ?thesis by blast
  qed
qed

definition final_error :: "'w platform \<Rightarrow> capture_request \<Rightarrow> provider list \<Rightarrow> js_error option \<Rightarrow> 'w \<Rightarrow> js_error" where
  "final_error pf rq ps le w =
     (if ps = [] then (case le of Some e \<Rightarrow> e | None \<Rightarrow> Error ''All screenshot providers failed'')
      else projl (fst (attempt pf rq (last ps) (world_after pf rq (butlast ps) w))))"

lemma try_providers_Inl:
  "try_providers pf rq ps le w = (Inl e, tried, w') \<Longrightarrow>
     tried = ps \<and> all_fail pf rq ps w \<and> w' = world_after pf rq ps w \<and> e = final_error pf rq ps le w"
proof (induction ps arbitrary: le w tried)
  case Nil
  then show ?case by (auto simp: final_error_def)
next
  case (Cons q ps)
  obtain r w1 where a: "attempt pf rq q w = (r, w1)" by (cases "attempt pf rq q w")
  show ?case
  proof (cases r)
    case (Inr d')
    with a Cons.prems show ?thesis by auto
  next
    case (Inl e1)
    obtain r2 t2 w2 where t: "try_providers pf rq ps (Some e1) w1 = (r2, t2, w2)"
      by (cases "try_providers pf rq ps (Some e1) w1") 
    with a Inl Cons.prems have eq: "r2 = Inl e" "tried = q # t2" "w2 = w'" by auto
    from Cons.IH [of "Some e1" w1 t2] t eq
    have f: "t2 = ps" "all_fail pf rq ps w1" "w' = world_after pf rq ps w1"
        "e = final_error pf rq ps (Some e1) w1" by auto
    have nf: "\<not> accepted pf rq q w" using a Inl attempt_Inl_iff [of pf rq q w] by simp
    have "e = final_error pf rq (q # ps) le w"
      using f(4) a Inl by (cases ps) (auto simp: final_error_def)
    then show ?thesis using f eq nf a by simp
  qed
qed

lemma try_providers_prefix: "prefix (fst (snd (try_providers pf rq ps le w))) ps"
proof (induction ps arbitrary: le w)
  case Nil
  show ?case by simp
next
  case (Cons q ps)
  obtain r w1 where a: "attempt pf rq q w = (r, w1)" by (cases "attempt pf rq q w")
  show ?case
  proof (cases r)
    case (Inr d)
    with a show ?thesis by simp
  next
    case (Inl e)
    with a Cons.IH [of "Some e" w1] show ?thesis
      by (auto split: prod.splits)
  qed
qed


definition demo_rq :: capture_request where
  "demo_rq = \<lparr>rq_url = ''https://example.com/'', rq_width = 1440, rq_height = 900, rq_type = Desktop, rq_fullPage = False\<rparr>"

lemma demo_try:
  "try_providers demo_platform demo_rq (strategy Desktop False) None [status 500, jpeg 120]
     = (Inr (''data:image/jpeg;base64,'' @ replicate 120 (CHR ''A'')), [Mshots, Microlink], [])"
  by (simp add: strategy_def providers_def attempt_def getUrl_def useProxy_def fetchImageAsBase64_def
      demo_platform_def status_def jpeg_def readAsDataURL_def demo_rq_def)


lemma all_fail_snoc:
  "all_fail pf rq (ps @ [p]) w \<longleftrightarrow> all_fail pf rq ps w \<and> \<not> accepted pf rq p (world_after pf rq ps w)"
  by (induction ps arbitrary: w) auto

lemma all_fail_isl: "all_fail pf rq ps w \<Longrightarrow> isl (fst (try_providers pf rq ps le w))"
proof (induction ps arbitrary: le w)
  case Nil
  show ?case by simp
next
  case (Cons q ps)
  obtain r w1 where a: "attempt pf rq q w = (r, w1)" by (cases "attempt pf rq q w")
  from Cons.prems a have "isl r" and rest: "all_fail pf rq ps w1"
    using attempt_Inl_iff [of pf rq q w] by auto
  then obtain e where "r = Inl e" by (cases r) auto
  with a Cons.IH [OF rest, of "Some e"] show ?case
    by (auto split: prod.splits)
qed

text \<open>
  C3: the loop of \<open>captureRealScreenshotWithFallback\<close> over a provider sequence \<open>ps\<close>, started
  with no error recorded. The providers attempted are an initial segment of \<open>ps\<close>, in order,
  each position once. When the call returns a data URL, it is read from the response of the
  first provider whose response is accepted (ok status, at least 100 bytes, a content type
  containing \<open>image\<close>), and every provider before it was turned down. When the call throws,
  every provider of \<open>ps\<close> was attempted and turned down, and the error is the one of the last
  attempt, or the generic error when the sequence was empty and none was recorded.
\<close>

theorem try_providers_first_valid:
  assumes "try_providers pf rq ps None w = (r, tried, w')"
  shows "prefix tried ps
    \<and> (\<forall>d. r = Inr d \<longrightarrow>
          (\<exists>fs p rest resp. ps = fs @ p # rest \<and> tried = fs @ [p] \<and> all_fail pf rq fs w
             \<and> fetched pf rq p (world_after pf rq fs w) = Inr resp \<and> valid_image resp
             \<and> d = readAsDataURL pf resp))
    \<and> (\<forall>e. r = Inl e \<longrightarrow>
          tried = ps \<and> all_fail pf rq ps w
          \<and> (if ps = [] then e = Error ''All screenshot providers failed''
             else fst (attempt pf rq (last ps) (world_after pf rq (butlast ps) w)) = Inl e))"
proof (intro conjI allI impI)
  show "prefix tried ps"
    using try_providers_prefix [of pf rq ps None w] assms by simp
next
  fix d assume "r = Inr d"
  with assms try_providers_Inr [of pf rq ps None w d tried w']
  obtain fs p rest where f: "ps = fs @ p # rest" "tried = fs @ [p]" "all_fail pf rq fs w"
      "attempt pf rq p (world_after pf rq fs w) = (Inr d, w')" by blast
  from f(4) have "fst (attempt pf rq p (world_after pf rq fs w)) = Inr d" by simp
  then obtain resp where "fetched pf rq p (world_after pf rq fs w) = Inr resp" "valid_image resp"
      "d = readAsDataURL pf resp"
    using attempt_Inr_iff [of pf rq p "world_after pf rq fs w" d] by blast
  with f show "\<exists>fs p rest resp. ps = fs @ p # rest \<and> tried = fs @ [p] \<and> all_fail pf rq fs w
             \<and> fetched pf rq p (world_after pf rq fs w) = Inr resp \<and> valid_image resp
             \<and> d = readAsDataURL pf resp" by blast
next
  fix e assume e: "r = Inl e"
  with assms try_providers_Inl [of pf rq ps None w e tried w']
  have f: "tried = ps" "all_fail pf rq ps w" "e = final_error pf rq ps None w" by auto
  show "tried = ps" by (rule f(1))
  show "all_fail pf rq ps w" by (rule f(2))
  show "if ps = [] then e = Error ''All screenshot providers failed''
        else fst (attempt pf rq (last ps) (world_after pf rq (butlast ps) w)) = Inl e"
  proof (cases "ps = []")
    case True
    with f(3) show ?thesis by (simp add: final_error_def)
  next
    case False
    then have "ps = butlast ps @ [last ps]" by simp
    with f(2) have "all_fail pf rq (butlast ps @ [last ps]) w" by simp
    then have "\<not> accepted pf rq (last ps) (world_after pf rq (butlast ps) w)"
      using all_fail_snoc [of pf rq "butlast ps" "last ps" w] by blast
    then have "isl (fst (attempt pf rq (last ps) (world_after pf rq (butlast ps) w)))"
      by (simp add: attempt_Inl_iff)
    with f(3) False show ?thesis by (simp add: final_error_def)
  qed
qed

lemma demo_try_fail:
  "try_providers demo_platform demo_rq (strategy Desktop False) None [status 500, status 404]
     = (Inl (TypeError ''Failed to fetch''), [Mshots, Microlink, ThumIo], [])"
  by (simp add: strategy_def providers_def attempt_def getUrl_def useProxy_def fetchImageAsBase64_def
      demo_platform_def status_def jpeg_def readAsDataURL_def demo_rq_def)

theorem try_providers_first_valid_witness:
  "try_providers demo_platform demo_rq (strategy Desktop False) None [status 500, jpeg 120]
     = (Inr (''data:image/jpeg;base64,'' @ replicate 120 (CHR ''A'')), [Mshots, Microlink], [])
   \<and> prefix [Mshots, Microlink] (strategy Desktop False)
   \<and> (\<exists>fs p rest resp. strategy Desktop False = fs @ p # rest \<and> [Mshots, Microlink] = fs @ [p]
         \<and> all_fail demo_platform demo_rq fs [status 500, jpeg 120]
         \<and> fetched demo_platform demo_rq p (world_after demo_platform demo_rq fs [status 500, jpeg 120]) = Inr resp
         \<and> valid_image resp
         \<and> ''data:image/jpeg;base64,'' @ replicate 120 (CHR ''A'') = readAsDataURL demo_platform resp)
   \<and> try_providers demo_platform demo_rq (strategy Desktop False) None [status 500, status 404]
     = (Inl (TypeError ''Failed to fetch''), [Mshots, Microlink, ThumIo], [])
   \<and> all_fail demo_platform demo_rq (strategy Desktop False) [status 500, status 404]
   \<and> fst (attempt demo_platform demo_rq (last (strategy Desktop False))
        (world_after demo_platform demo_rq (butlast (strategy Desktop False)) [status 500, status 404]))
      = Inl (TypeError ''Failed to fetch'')"
proof -
  note ok = try_providers_first_valid [OF demo_try]
  note ko = try_providers_first_valid [OF demo_try_fail]
  have ne: "strategy Desktop False \<noteq> []" by (simp add: strategy_def)
  from ok have 1: "prefix [Mshots, Microlink] (strategy Desktop False)" by blast
  from ok have 2: "\<exists>fs p rest resp. strategy Desktop False = fs @ p # rest \<and> [Mshots, Microlink] = fs @ [p]
         \<and> all_fail demo_platform demo_rq fs [status 500, jpeg 120]
         \<and> fetched demo_platform demo_rq p (world_after demo_platform demo_rq fs [status 500, jpeg 120]) = Inr resp
         \<and> valid_image resp
         \<and> ''data:image/jpeg;base64,'' @ replicate 120 (CHR ''A'') = readAsDataURL demo_platform resp"
    by blast
  from ko have 3: "all_fail demo_platform demo_rq (strategy Desktop False) [status 500, status 404]"
    by blast
  from ko ne have 4: "fst (attempt demo_platform demo_rq (last (strategy Desktop False))
        (world_after demo_platform demo_rq (butlast (strategy Desktop False)) [status 500, status 404]))
      = Inl (TypeError ''Failed to fetch'')" by simp
  from demo_try demo_try_fail 1 2 3 4 show ?thesis by blast
qed

text \<open>
  C2: the provider sequence is a function of the viewport tag and the full-page flag alone:
  microlink, thum.io for a mobile viewport and for a full-page desktop request; mshots,
  microlink, thum.io for an ordinary desktop request. The providers a call attempts are an
  initial segment of that sequence, which names no provider twice, so a mobile call never
  attempts mshots.
\<close>

theorem provider_order_by_request_shape:
  "strategy Mobile fullPage = [Microlink, ThumIo]
   \<and> strategy Desktop True = [Microlink, ThumIo]
   \<and> strategy Desktop False = [Mshots, Microlink, ThumIo]
   \<and> distinct (strategy t fullPage)
   \<and> prefix (fst (snd (captureRealScreenshotWithFallback pf u width height t fullPage w)))
        (strategy t fullPage)
   \<and> Mshots \<notin> set (fst (snd (captureRealScreenshotWithFallback pf u width height Mobile fullPage' w)))"
proof -
  have m: "strategy Mobile fp = [Microlink, ThumIo]" for fp
    by (simp add: strategy_def providers_def)
  have p: "prefix (fst (snd (captureRealScreenshotWithFallback pf u width height t fp w))) (strategy t fp)" for t fp
    by (simp add: captureRealScreenshotWithFallback_def try_providers_prefix)
  have "set (fst (snd (captureRealScreenshotWithFallback pf u width height Mobile fullPage' w)))
          \<subseteq> set (strategy Mobile fullPage')"
    using p [of Mobile fullPage'] by (rule set_mono_prefix)
  then have "Mshots \<notin> set (fst (snd (captureRealScreenshotWithFallback pf u width height Mobile fullPage' w)))"
    by (auto simp: m)
  moreover have "distinct (strategy t fullPage)"
    by (simp add: strategy_def providers_def)
  ultimately show ?thesis using m p by (simp add: strategy_def providers_def)
qed

section \<open>Link Crawler: properties\<close>

text \<open>
  An entry belongs to the root's host when the URL parser reads it and gives that hostname.
  The crawler stores \<open>resolvedUrl.href\<close> and compares \<open>resolvedUrl.hostname\<close>; that the
  stored string parses again to the same hostname is a property of the platform's URL
  serialiser, stated here as \<open>serialisation_stable\<close>.
\<close>

definition same_host :: "'w platform \<Rightarrow> string \<Rightarrow> string \<Rightarrow> bool" where
  "same_host pf baseDomain e \<longleftrightarrow> (case new_URL pf e of None \<Rightarrow> False | Some u \<Rightarrow> hostname u = baseDomain)"

definition serialisation_stable :: "'w platform \<Rightarrow> bool" where
  "serialisation_stable pf \<longleftrightarrow>
     (\<forall>h b r. new_URL_base pf h b = Some r \<longrightarrow> same_host pf (hostname r) (href r))"

lemma crawl_loop_distinct:
  "distinct (map strip_trailing_slash result) \<Longrightarrow> strip_trailing_slash ` set result \<subseteq> visited \<Longrightarrow>
   distinct (map strip_trailing_slash (fst (crawl_loop pf bd depth queue visited result w)))"
proof (induction pf bd depth queue visited result w rule: crawl_loop.induct)
  case (1 pf bd depth visited result w)
  then show ?case by simp
next
  case (2 pf bd depth current queue visited result w)
  let ?c = "strip_trailing_slash (fst current)"
  show ?case
  proof (cases "?c \<in> visited")
    case True
    with 2 show ?thesis by simp
  next
    case False
    have d: "distinct (map strip_trailing_slash (result @ [fst current]))"
      using False "2.prems" by auto
    have s: "strip_trailing_slash ` set (result @ [fst current]) \<subseteq> insert ?c visited"
      using "2.prems" by auto
    show ?thesis
    proof (cases "int (snd current) < depth")
      case True
      with False "2.IH"(2) [OF False True d s] show ?thesis by simp
    next
      case deep: False
      with False "2.IH"(3) [OF False deep d s] show ?thesis by simp
    qed
  qed
qed

lemma crawl_loop_extends:
  "\<exists>ys. fst (crawl_loop pf bd depth queue visited result w) = result @ ys"
proof (induction pf bd depth queue visited result w rule: crawl_loop.induct)
  case (1 pf bd depth visited result w)
  then show ?case by simp
next
  case (2 pf bd depth current queue visited result w)
  let ?c = "strip_trailing_slash (fst current)"
  show ?case
  proof (cases "?c \<in> visited")
    case True
    with "2.IH"(1) show ?thesis by simp
  next
    case False
    show ?thesis
    proof (cases "int (snd current) < depth")
      case True
      with False "2.IH"(2) [OF False True] show ?thesis by auto
    next
      case deep: False
      with False "2.IH"(3) [OF False deep] show ?thesis by auto
    qed
  qed
qed

lemma scan_anchors_same_host:
  assumes "serialisation_stable pf"
  shows "n \<in> set (scan_anchors pf bd visited current anchors found) \<Longrightarrow> same_host pf bd (fst n)"
proof (induction anchors arbitrary: found)
  case Nil
  then show ?case by simp
next
  case (Cons a anchors)
  show ?case
  proof (cases "skip_href a")
    case True
    with Cons show ?thesis by simp
  next
    case False
    show ?thesis
    proof (cases "new_URL_base pf (the a) (fst current)")
      case None
      with False Cons show ?thesis by simp
    next
      case (Some r)
      have "same_host pf (hostname r) (href r)"
        using assms Some by (auto simp: serialisation_stable_def)
      with False Some Cons show ?thesis
        by (auto split: if_splits)
    qed
  qed
qed

lemma find_links_same_host:
  assumes "serialisation_stable pf"
    and "n \<in> set (fst (find_links pf bd visited current w))"
  shows "same_host pf bd (fst n)"
  using assms(2) scan_anchors_same_host [OF assms(1)]
  by (auto simp: find_links_def split: prod.splits sum.splits if_splits)

lemma crawl_loop_same_host:
  assumes "serialisation_stable pf"
  shows "\<forall>n \<in> set queue. same_host pf bd (fst n) \<Longrightarrow> \<forall>e \<in> set result. same_host pf bd e \<Longrightarrow>
     \<forall>e \<in> set (fst (crawl_loop pf bd depth queue visited result w)). same_host pf bd e"
  using assms
proof (induction pf bd depth queue visited result w rule: crawl_loop.induct)
  case (1 pf bd depth visited result w)
  then show ?case by simp
next
  case (2 pf bd depth current queue visited result w)
  let ?c = "strip_trailing_slash (fst current)"
  let ?v = "insert ?c visited"
  have q: "\<forall>n \<in> set queue. same_host pf bd (fst n)" using "2.prems"(1) by simp
  have r: "\<forall>e \<in> set (result @ [fst current]). same_host pf bd e" using "2.prems"(1,2) by simp
  show ?case
  proof (cases "?c \<in> visited")
    case True
    with "2.IH"(1) [OF True q "2.prems"(2,3)] show ?thesis by simp
  next
    case False
    show ?thesis
    proof (cases "int (snd current) < depth")
      case True
      have q': "\<forall>n \<in> set (queue @ fst (find_links pf bd ?v current w)). same_host pf bd (fst n)"
      proof
        fix n assume "n \<in> set (queue @ fst (find_links pf bd ?v current w))"
        then consider "n \<in> set queue" | "n \<in> set (fst (find_links pf bd ?v current w))" by auto
        then show "same_host pf bd (fst n)"
        proof cases
          case 1
          with q show ?thesis by simp
        next
          case 2
          then show ?thesis by (rule find_links_same_host [OF "2.prems"(3)])
        qed
      qed
      from False True "2.IH"(2) [OF False True q' r "2.prems"(3)] show ?thesis by simp
    next
      case deep: False
      with False "2.IH"(3) [OF False deep q r "2.prems"(3)] show ?thesis by simp
    qed
  qed
qed

lemma crawl_loop_first:
  "\<exists>ys. fst (crawl_loop pf bd depth ((u, l) # queue) {} [] w) = u # ys"
proof (cases "int l < depth")
  case True
  let ?v = "{strip_trailing_slash u}"
  let ?f = "find_links pf bd ?v (u, l) w"
  have eq: "crawl_loop pf bd depth ((u, l) # queue) {} [] w
      = crawl_loop pf bd depth (queue @ fst ?f) ?v [u] (snd ?f)"
    using True by simp
  obtain ys where "fst (crawl_loop pf bd depth (queue @ fst ?f) ?v [u] (snd ?f)) = [u] @ ys"
    using crawl_loop_extends [of pf bd depth "queue @ fst ?f" ?v "[u]" "snd ?f"] by auto
  then have "fst (crawl_loop pf bd depth ((u, l) # queue) {} [] w) = u # ys"
    by (simp only: eq append_Cons append_Nil)
  then show ?thesis by blast
next
  case False
  let ?v = "{strip_trailing_slash u}"
  have eq: "crawl_loop pf bd depth ((u, l) # queue) {} [] w
      = crawl_loop pf bd depth queue ?v [u] w"
    using False by simp
  obtain ys where "fst (crawl_loop pf bd depth queue ?v [u] w) = [u] @ ys"
    using crawl_loop_extends [of pf bd depth queue ?v "[u]" w] by auto
  then have "fst (crawl_loop pf bd depth ((u, l) # queue) {} [] w) = u # ys"
    by (simp only: eq append_Cons append_Nil)
  then show ?thesis by blast
qed

text \<open>
  C7: for a root that is a URL, on a platform whose URL serialiser is stable, and for every
  depth (so for every depth of at least 1), the crawler returns a list; the list is not
  empty, its first entry is the root, whatever the network answers, and every entry parses
  to a URL whose hostname is exactly the root's hostname.
\<close>

theorem crawlForLinks_root_and_host:
  assumes "new_URL pf rootUrl = Some root" and "serialisation_stable pf"
  shows "\<exists>result w'. crawlForLinks pf rootUrl depth w = (Inr result, w')
     \<and> result \<noteq> [] \<and> hd result = rootUrl
     \<and> (\<forall>e \<in> set result. \<exists>u. new_URL pf e = Some u \<and> hostname u = hostname root)"
proof -
  obtain result w' where c: "crawl_loop pf (hostname root) depth [(rootUrl, 1)] {} [] w = (result, w')"
    by (cases "crawl_loop pf (hostname root) depth [(rootUrl, 1)] {} [] w")
  have run: "crawlForLinks pf rootUrl depth w = (Inr result, w')"
    using assms(1) c by (simp add: crawlForLinks_def)
  obtain ys where "fst (crawl_loop pf (hostname root) depth [(rootUrl, 1)] {} [] w) = rootUrl # ys"
    using crawl_loop_first [of pf "hostname root" depth rootUrl 1 "[]" w] by auto
  with c have ys: "result = rootUrl # ys" by simp
  have r0: "same_host pf (hostname root) rootUrl"
    using assms(1) by (simp add: same_host_def)
  have "\<forall>e \<in> set (fst (crawl_loop pf (hostname root) depth [(rootUrl, 1)] {} [] w)).
      same_host pf (hostname root) e"
    by (rule crawl_loop_same_host [OF assms(2)]) (simp_all add: r0 del: crawl_loop.simps)
  then have hosts: "\<forall>e \<in> set result. same_host pf (hostname root) e"
    by (simp only: c fst_conv)
  have "\<forall>e \<in> set result. \<exists>u. new_URL pf e = Some u \<and> hostname u = hostname root"
  proof
    fix e assume "e \<in> set result"
    with hosts have "same_host pf (hostname root) e" by blast
    then show "\<exists>u. new_URL pf e = Some u \<and> hostname u = hostname root"
      by (cases "new_URL pf e") (simp_all add: same_host_def)
  qed
  with run ys show ?thesis by simp
qed

text \<open>
  C8: no two entries of the crawler's result are equal after one trailing slash is
  stripped: an entry is appended only when its stripped form was not yet in \<open>visited\<close>,
  and the stripped form is added to \<open>visited\<close> before the entry is appended.
\<close>

theorem crawlForLinks_distinct:
  assumes "crawlForLinks pf rootUrl depth w = (Inr result, w')"
  shows "distinct (map strip_trailing_slash result)"
proof -
  from assms obtain root where "new_URL pf rootUrl = Some root"
      and "result = fst (crawl_loop pf (hostname root) depth [(rootUrl, 1)] {} [] w)"
    by (auto simp: crawlForLinks_def split: option.splits prod.splits)
  then show ?thesis
    using crawl_loop_distinct [of "[]" "{}" pf "hostname root" depth "[(rootUrl, 1)]" w]
    by (simp del: crawl_loop.simps)
qed

subsection \<open>The example platform is stable\<close>

lemma demo_parse_after_stable:
  assumes "demo_parse_after scheme rest = Some u"
  shows "\<exists>t. href u = scheme @ t \<and> demo_parse_after scheme t = Some u"
proof -
  let ?h = "takeWhile (\<lambda>c. c \<noteq> CHR ''/'') rest"
  let ?p = "dropWhile (\<lambda>c. c \<noteq> CHR ''/'') rest"
  let ?p' = "if ?p = [] then ''/'' else ?p"
  from assms have ok: "?h \<noteq> []" "list_all demo_host_char ?h" "list_all demo_path_char ?p"
    and u: "u = \<lparr>href = scheme @ ?h @ ?p', hostname = ?h, pathname = ?p'\<rparr>"
    by (auto simp: demo_parse_after_def Let_def split: if_splits)
  have hd: "?p' \<noteq> [] \<and> hd ?p' = CHR ''/''"
    using hd_dropWhile [of "\<lambda>c. c \<noteq> CHR ''/''" rest] by auto
  then obtain q where q: "?p' = CHR ''/'' # q" by (cases ?p') auto
  have noslash: "\<forall>c \<in> set ?h. c \<noteq> CHR ''/''"
    using set_takeWhileD by fastforce
  have t: "takeWhile (\<lambda>c. c \<noteq> CHR ''/'') (?h @ ?p') = ?h"
    unfolding q using noslash by (simp add: takeWhile_append2)
  have d: "dropWhile (\<lambda>c. c \<noteq> CHR ''/'') (?h @ ?p') = ?p'"
    unfolding q using noslash by (simp add: dropWhile_append2)
  have pc: "list_all demo_path_char ?p'"
    using ok(3) by (simp add: demo_path_char_def)
  have "demo_parse_after scheme (?h @ ?p') = Some u"
    unfolding demo_parse_after_def Let_def t d using ok pc hd u by simp
  moreover have "href u = scheme @ (?h @ ?p')" by (simp add: u)
  ultimately show ?thesis by blast
qed

lemma demo_new_URL_stable:
  assumes "demo_new_URL s = Some u"
  shows "demo_new_URL (href u) = Some u"
proof (cases "take 8 s = ''https://''")
  case True
  with assms have "demo_parse_after ''https://'' (drop 8 s) = Some u"
    by (simp add: demo_new_URL_def)
  then obtain t where h: "href u = ''https://'' @ t" and p: "demo_parse_after ''https://'' t = Some u"
    using demo_parse_after_stable by blast
  have "demo_new_URL (''https://'' @ t) = demo_parse_after ''https://'' t"
    by (simp add: demo_new_URL_def)
  with h p show ?thesis by simp
next
  case False
  with assms have "demo_parse_after ''http://'' (drop 7 s) = Some u"
    by (simp add: demo_new_URL_def split: if_splits)
  then obtain t where h: "href u = ''http://'' @ t" and p: "demo_parse_after ''http://'' t = Some u"
    using demo_parse_after_stable by blast
  have "demo_new_URL (''http://'' @ t) = demo_parse_after ''http://'' t"
    by (simp add: demo_new_URL_def)
  with h p show ?thesis by simp
qed

lemma demo_serialisation_stable: "serialisation_stable demo_platform"
proof -
  have "same_host demo_platform (hostname r) (href r)" if "demo_new_URL_base h b = Some r" for h b r
  proof -
    from that obtain s where "demo_new_URL s = Some r"
      by (auto simp: demo_new_URL_base_def split: option.splits if_splits)
    then have "demo_new_URL (href r) = Some r" by (rule demo_new_URL_stable)
    then show ?thesis by (simp add: same_host_def demo_platform_def)
  qed
  then show ?thesis by (simp add: serialisation_stable_def demo_platform_def)
qed

section \<open>Capture Orchestrator: properties\<close>

lemma readAsDataURL_nonempty: "readAsDataURL pf resp \<noteq> []"
  by (simp add: readAsDataURL_def)

lemma try_providers_dataUrl_nonempty:
  assumes "try_providers pf rq ps le w = (Inr d, tried, w')"
  shows "d \<noteq> []"
proof -
  from try_providers_Inr [OF assms] obtain fs p where
    "attempt pf rq p (world_after pf rq fs w) = (Inr d, w')" by auto
  then have "fst (attempt pf rq p (world_after pf rq fs w)) = Inr d" by simp
  then obtain resp where "d = readAsDataURL pf resp"
    using attempt_Inr_iff [of pf rq p "world_after pf rq fs w" d] by auto
  then show ?thesis by (simp add: readAsDataURL_nonempty)
qed

lemma capture_pair_appends_one:
  "\<exists>img w'. capture_pair pf config now u host path vp (images, n, w) = (images @ [img], n + 1, w')"
proof -
  obtain r tried w1 where c: "captureRealScreenshotWithFallback pf u (vp_width vp) (vp_height vp)
      (vp_type vp) (cfg_fullPage config) w = (r, tried, w1)"
    by (cases "captureRealScreenshotWithFallback pf u (vp_width vp) (vp_height vp)
      (vp_type vp) (cfg_fullPage config) w")
  show ?thesis
  proof (cases r)
    case (Inl e)
    with c show ?thesis
      by (simp add: capture_pair_def Let_def split: prod.splits)
  next
    case (Inr d)
    with c have "d \<noteq> []"
      using try_providers_dataUrl_nonempty by (simp add: captureRealScreenshotWithFallback_def)
    with c Inr show ?thesis
      by (simp add: capture_pair_def Let_def split: prod.splits)
  qed
qed

lemma capture_viewports_length:
  "\<exists>imgs w'. capture_viewports pf config now u host path vps (images, n, w)
       = (imgs, n + length vps, w') \<and> length imgs = length images + length vps"
proof (induction vps arbitrary: images n w)
  case Nil
  show ?case by simp
next
  case (Cons vp vps)
  obtain img w1 where p: "capture_pair pf config now u host path vp (images, n, w)
      = (images @ [img], n + 1, w1)"
    using capture_pair_appends_one [of pf config now u host path vp images n w] by auto
  from Cons.IH [of "images @ [img]" "n + 1" w1] p show ?case by auto
qed

lemma capture_pages_length:
  assumes "capture_pages pf config now vps urls (images, n, w) = Inr (imgs, n', w')"
  shows "length imgs = length images + length urls * length vps"
  using assms
proof (induction urls arbitrary: images n w)
  case Nil
  then show ?case by simp
next
  case (Cons u urls)
  from Cons.prems obtain urlObj where o: "new_URL pf u = Some urlObj"
    by (cases "new_URL pf u") auto
  obtain imgs1 w1 where v: "capture_viewports pf config now u (cleanHostname (hostname urlObj))
        (cleanPath (pathname urlObj)) vps (images, n, w) = (imgs1, n + length vps, w1)"
      and l: "length imgs1 = length images + length vps"
    using capture_viewports_length [of pf config now u "cleanHostname (hostname urlObj)"
        "cleanPath (pathname urlObj)" vps images n w] by auto
  from Cons.prems o v have "capture_pages pf config now vps urls (imgs1, n + length vps, w1)
      = Inr (imgs, n', w')" by simp
  from Cons.IH [OF this] l show ?case by simp
qed

lemma capture_pages_returns:
  assumes "list_all (\<lambda>u. new_URL pf u \<noteq> None) urls"
  shows "\<exists>st. capture_pages pf config now vps urls st0 = Inr st"
  using assms
proof (induction urls arbitrary: st0)
  case Nil
  show ?case by (simp del: split_paired_Ex)
next
  case (Cons u urls)
  from Cons.prems obtain urlObj where o: "new_URL pf u = Some urlObj" by auto
  from Cons.prems have "list_all (\<lambda>u. new_URL pf u \<noteq> None) urls" by simp
  from Cons.IH [OF this, of "capture_viewports pf config now u (cleanHostname (hostname urlObj))
        (cleanPath (pathname urlObj)) vps st0"] o
  show ?case by (simp del: split_paired_Ex)
qed

text \<open>
  C1: whenever \<open>generateScreenshots\<close> returns a list, its length is the number of pages to
  capture times the number of enabled viewports, whatever the providers answer: every pair
  adds exactly one record, a captured image or an error placeholder. It returns a list
  whenever every page to capture is a URL.
\<close>

theorem generateScreenshots_length:
  "(\<forall>images. generateScreenshots pf rootUrl config w = Inr images \<longrightarrow>
      length images = length (fst (urlsToCapture pf rootUrl config w)) * length (viewports_of config))
   \<and> (list_all (\<lambda>u. new_URL pf u \<noteq> None) (fst (urlsToCapture pf rootUrl config w)) \<longrightarrow>
        (\<exists>images. generateScreenshots pf rootUrl config w = Inr images))"
proof (intro conjI allI impI)
  fix images assume g: "generateScreenshots pf rootUrl config w = Inr images"
  obtain urls w1 where u: "urlsToCapture pf rootUrl config w = (urls, w1)"
    by (cases "urlsToCapture pf rootUrl config w")
  from g u obtain n' w2 where "capture_pages pf config (new_Date pf w1) (viewports_of config) urls
      ([], 0, w1) = Inr (images, n', w2)"
    by (auto simp: generateScreenshots_def Let_def split: sum.splits)
  from capture_pages_length [OF this] u
  show "length images = length (fst (urlsToCapture pf rootUrl config w)) * length (viewports_of config)"
    by simp
next
  assume a: "list_all (\<lambda>u. new_URL pf u \<noteq> None) (fst (urlsToCapture pf rootUrl config w))"
  obtain urls w1 where u: "urlsToCapture pf rootUrl config w = (urls, w1)"
    by (cases "urlsToCapture pf rootUrl config w")
  with a have "list_all (\<lambda>u. new_URL pf u \<noteq> None) urls" by simp
  from capture_pages_returns [OF this, of config "new_Date pf w1" "viewports_of config" "([], 0, w1)"]
  obtain st where "capture_pages pf config (new_Date pf w1) (viewports_of config) urls ([], 0, w1) = Inr st"
    by (rule exE)
  with u show "\<exists>images. generateScreenshots pf rootUrl config w = Inr images"
    by (cases st) (auto simp: generateScreenshots_def Let_def)
qed

text \<open>
  The placeholder of a failed pair: when every provider of the selected sequence is turned
  down for a page and a viewport, the orchestrator appends exactly one entry for the pair;
  its filename is \<open>error_\<close>, the value of \<open>cleanHostname\<close> on the page's hostname, \<open>_\<close>, the
  viewport tag and \<open>.jpg\<close>, and its width and height are those of the requested viewport.
\<close>

lemma error_placeholder_entry:
  assumes "new_URL pf u = Some urlObj"
    and "all_fail pf \<lparr>rq_url = u, rq_width = vp_width vp, rq_height = vp_height vp,
            rq_type = vp_type vp, rq_fullPage = cfg_fullPage config\<rparr>
          (strategy (vp_type vp) (cfg_fullPage config)) w"
  shows "\<exists>img n' w'. capture_pages pf config now [vp] [u] (images, n, w) = Inr (images @ [img], n', w')
     \<and> img_filename img = ''error_'' @ cleanHostname (hostname urlObj) @ ''_''
          @ viewport_tag (vp_type vp) @ ''.jpg''
     \<and> img_width img = vp_width vp \<and> img_height img = vp_height vp
     \<and> img_url img = u \<and> img_viewport img = vp_type vp"
proof -
  let ?rq = "\<lparr>rq_url = u, rq_width = vp_width vp, rq_height = vp_height vp,
            rq_type = vp_type vp, rq_fullPage = cfg_fullPage config\<rparr>"
  obtain r tried w1 where c: "try_providers pf ?rq (strategy (vp_type vp) (cfg_fullPage config)) None w
      = (r, tried, w1)"
    by (cases "try_providers pf ?rq (strategy (vp_type vp) (cfg_fullPage config)) None w")
  from all_fail_isl [OF assms(2), of None] c obtain e where "r = Inl e"
    by (cases r) auto
  with c assms(1) show ?thesis
    by (simp add: capture_pair_def captureRealScreenshotWithFallback_def Let_def split: prod.splits)
qed

section \<open>A run on the example platform\<close>

text \<open>
  A request for \<open>example.com\<close> at depth 2 with both viewports. The root page links to
  \<open>/about\<close> (twice, once with a trailing slash), to another host and to a fragment. Of the
  four captures the second and the fourth fail at every provider.
\<close>

definition demo_config :: CaptureConfig where
  "demo_config = \<lparr>cfg_desktop = True, cfg_mobile = True,
     cfg_desktopRes = Some \<lparr>res_width = 1440, res_height = 900, res_label = ''MacBook Air (1440x900)''\<rparr>,
     cfg_mobileRes = Some \<lparr>res_width = 393, res_height = 852, res_label = ''iPhone 14/15 Pro (393x852)''\<rparr>,
     cfg_fullPage = False, cfg_autoDownload = False, cfg_depth = 2,
     cfg_filenameTemplate = ''{domain}_{viewport}_{index}''\<rparr>"

definition demo_script :: script where
  "demo_script = [page ''/about #top https://example.com/about/ https://other.example.com/'',
                  jpeg 120, status 500, status 500, status 404, jpeg 150]"

lemma demo_fields:
  "new_URL demo_platform = demo_new_URL"
  "new_URL_base demo_platform = demo_new_URL_base"
  "fetch demo_platform u [] = (Inl (TypeError ''Failed to fetch''), [])"
  "fetch demo_platform u (r # rs) = (r, rs)"
  "anchor_hrefs demo_platform html = map Some (demo_words [] html)"
  "math_random36 demo_platform w = (''k3x9q'', w)"
  "randomUUID demo_platform w = (''uuid-'' @ show_nat (length w), w)"
  "new_Date demo_platform w = \<lparr>getFullYear = 2024, getMonth = 2, getDate = 7, getHours = 9, getMinutes = 5\<rparr>"
  "base64 demo_platform body = replicate (length body) (CHR ''A'')"
  "image_dimensions demo_platform dataUrl = (1440, 3000)"
  "canvas_jpeg demo_platform width height label = ''data:image/jpeg;base64,placeholder''"
  by (simp_all add: demo_platform_def)

lemma demo_config_fields:
  "cfg_desktop demo_config" "cfg_mobile demo_config" "\<not> cfg_fullPage demo_config"
  "cfg_depth demo_config = 2" "cfg_filenameTemplate demo_config = ''{domain}_{viewport}_{index}''"
  by (simp_all add: demo_config_def)

lemmas demo_url_defs = demo_fields demo_new_URL_def demo_parse_after_def demo_host_char_def
  demo_path_char_def is_alnum_def Let_def

lemma demo_norm: "normalizeUrl demo_platform ''example.com'' = ''https://example.com/''"
  by (simp add: normalizeUrl_def trim_def js_whitespace_def with_scheme_def
      has_http_scheme_def ascii_lower_def demo_url_defs)

lemma demo_parse_root:
  "demo_new_URL ''https://example.com/''
     = Some \<lparr>href = ''https://example.com/'', hostname = ''example.com'', pathname = ''/''\<rparr>"
  by (simp add: demo_url_defs)

lemma demo_parse_about:
  "demo_new_URL ''https://example.com/about''
     = Some \<lparr>href = ''https://example.com/about'', hostname = ''example.com'', pathname = ''/about''\<rparr>"
  by (simp add: demo_url_defs)

lemma demo_links:
  "find_links demo_platform ''example.com'' {''https://example.com''} (''https://example.com/'', Suc 0) demo_script
     = ([(''https://example.com/about'', 2), (''https://example.com/about/'', 2)],
        [jpeg 120, status 500, status 500, status 404, jpeg 150])"
  by (simp add: find_links_def demo_script_def page_def skip_href_def startsWith_def
      demo_new_URL_base_def strip_trailing_slash_def maxLinksPerLevel_def demo_url_defs)

lemma demo_crawl:
  "crawlForLinks demo_platform ''https://example.com/'' 2 demo_script
     = (Inr [''https://example.com/'', ''https://example.com/about''],
        [jpeg 120, status 500, status 500, status 404, jpeg 150])"
  by (simp add: crawlForLinks_def demo_fields demo_parse_root strip_trailing_slash_def demo_links)

lemma demo_urls:
  "urlsToCapture demo_platform ''example.com'' demo_config demo_script
     = ([''https://example.com/'', ''https://example.com/about''],
        [jpeg 120, status 500, status 500, status 404, jpeg 150])"
  by (simp add: urlsToCapture_def demo_norm demo_config_fields demo_crawl)

definition demo_now :: date_time where
  "demo_now = \<lparr>getFullYear = 2024, getMonth = 2, getDate = 7, getHours = 9, getMinutes = 5\<rparr>"

definition demo_desktop :: viewport where
  "demo_desktop = \<lparr>vp_type = Desktop, vp_width = 1440, vp_height = 900\<rparr>"

definition demo_mobile :: viewport where
  "demo_mobile = \<lparr>vp_type = Mobile, vp_width = 393, vp_height = 852\<rparr>"

lemma demo_viewport_fields:
  "vp_type demo_desktop = Desktop" "vp_width demo_desktop = 1440" "vp_height demo_desktop = 900"
  "vp_type demo_mobile = Mobile" "vp_width demo_mobile = 393" "vp_height demo_mobile = 852"
  by (simp_all add: demo_desktop_def demo_mobile_def)

lemmas show_nat_defs = show_nat.simps digit_char_def char_of_def bit_0

lemmas substitute_defs = substitute_def replace_all_def show_nat_defs padStart2_def viewport_tag_def
  or_else_def demo_now_def demo_viewport_fields

lemmas sanitize_defs = sanitize_def safe_char_def is_alnum_def

lemmas extension_defs = endsWith_def toLowerCase_def lower_char_def char_of_def bit_0

lemmas capture_defs = captureRealScreenshotWithFallback_def strategy_def providers_def attempt_def
  getUrl_def useProxy_def fetchImageAsBase64_def readAsDataURL_def jpeg_def status_def demo_fields

lemma demo_viewports: "viewports_of demo_config = [demo_desktop, demo_mobile]"
  by (simp add: viewports_of_def demo_config_def opt_or_def or_else_def demo_desktop_def
      demo_mobile_def)

lemma demo_substitute_1:
  "substitute ''{domain}_{viewport}_{index}'' ''example.com'' [] demo_now demo_desktop (1440, 3000)
     (Suc 0) = ''example.com_desktop_1''"
  by (simp add: substitute_defs)

lemma demo_substitute_3:
  "substitute ''{domain}_{viewport}_{index}'' ''example.com'' ''-about'' demo_now demo_desktop
     (1440, 3000) 3 = ''example.com_desktop_3''"
  by (simp add: substitute_defs)

lemma demo_sanitize_1: "sanitize ''example.com_desktop_1'' = ''example.com_desktop_1''"
  by (simp add: sanitize_defs)

lemma demo_sanitize_3: "sanitize ''example.com_desktop_3'' = ''example.com_desktop_3''"
  by (simp add: sanitize_defs)

lemma demo_extension_1:
  "\<not> endsWith (toLowerCase ''example.com_desktop_1'') ''.jpg''"
  "\<not> endsWith (toLowerCase ''example.com_desktop_1'') ''.png''"
  by (simp_all add: extension_defs)

lemma demo_extension_3:
  "\<not> endsWith (toLowerCase ''example.com_desktop_3'') ''.jpg''"
  "\<not> endsWith (toLowerCase ''example.com_desktop_3'') ''.png''"
  by (simp_all add: extension_defs)

lemma demo_template: "trim ''{domain}_{viewport}_{index}'' = ''{domain}_{viewport}_{index}''"
  by (simp add: trim_def js_whitespace_def)

lemma demo_filename_1:
  "render_filename ''{domain}_{viewport}_{index}'' ''example.com'' [] demo_now demo_desktop
     (1440, 3000) (Suc 0) = ''example.com_desktop_1.jpg''"
  by (simp add: render_filename_def Let_def demo_template demo_substitute_1 demo_sanitize_1
      demo_extension_1)

lemma demo_filename_3:
  "render_filename ''{domain}_{viewport}_{index}'' ''example.com'' ''-about'' demo_now demo_desktop
     (1440, 3000) 3 = ''example.com_desktop_3.jpg''"
  by (simp add: render_filename_def Let_def demo_template demo_substitute_3 demo_sanitize_3
      demo_extension_3)

lemma demo_capture_1:
  "captureRealScreenshotWithFallback demo_platform ''https://example.com/'' 1440 900 Desktop False
     [jpeg 120, status 500, status 500, status 404, jpeg 150]
   = (Inr (''data:image/jpeg;base64,'' @ replicate 120 (CHR ''A'')), [Mshots],
      [status 500, status 500, status 404, jpeg 150])"
  by (simp add: capture_defs)

lemma demo_capture_2:
  "captureRealScreenshotWithFallback demo_platform ''https://example.com/'' 393 852 Mobile False
     [status 500, status 500, status 404, jpeg 150]
   = (Inl (Error ''Status 500''), [Microlink, ThumIo], [status 404, jpeg 150])"
  by (simp add: capture_defs show_nat_defs)

lemma demo_capture_3:
  "captureRealScreenshotWithFallback demo_platform ''https://example.com/about'' 1440 900 Desktop False
     [status 404, jpeg 150]
   = (Inr (''data:image/jpeg;base64,'' @ replicate 150 (CHR ''A'')), [Mshots, Microlink], [])"
  by (simp add: capture_defs)

lemma demo_capture_4:
  "captureRealScreenshotWithFallback demo_platform ''https://example.com/about'' 393 852 Mobile False []
   = (Inl (TypeError ''Failed to fetch''), [Microlink, ThumIo], [])"
  by (simp add: capture_defs)


lemmas pair_defs = capture_pair_def demo_fields demo_config_fields demo_viewport_fields
  or_else_def show_nat_defs viewport_tag_def

lemma demo_pair_1:
  "capture_pair demo_platform demo_config demo_now ''https://example.com/'' ''example.com'' []
     demo_desktop ([], 0, [jpeg 120, status 500, status 500, status 404, jpeg 150])
   = ([\<lparr>img_id = ''uuid-4'', img_url = ''https://example.com/'',
         img_dataUrl = ''data:image/jpeg;base64,'' @ replicate 120 (CHR ''A''),
         img_viewport = Desktop, img_width = 1440, img_height = 3000,
         img_filename = ''example.com_desktop_1.jpg''\<rparr>], 1,
      [status 500, status 500, status 404, jpeg 150])"
  by (simp add: pair_defs demo_capture_1 demo_filename_1)

lemma demo_pair_2:
  "capture_pair demo_platform demo_config demo_now ''https://example.com/'' ''example.com'' []
     demo_mobile (images, Suc 0, [status 500, status 500, status 404, jpeg 150])
   = (images @ [\<lparr>img_id = ''uuid-2'', img_url = ''https://example.com/'',
         img_dataUrl = ''data:image/jpeg;base64,placeholder'',
         img_viewport = Mobile, img_width = 393, img_height = 852,
         img_filename = ''error_example.com_mobile.jpg''\<rparr>], 2,
      [status 404, jpeg 150])"
  by (simp add: pair_defs demo_capture_2)

lemma demo_pair_3:
  "capture_pair demo_platform demo_config demo_now ''https://example.com/about'' ''example.com''
     ''-about'' demo_desktop (images, 2, [status 404, jpeg 150])
   = (images @ [\<lparr>img_id = ''uuid-0'', img_url = ''https://example.com/about'',
         img_dataUrl = ''data:image/jpeg;base64,'' @ replicate 150 (CHR ''A''),
         img_viewport = Desktop, img_width = 1440, img_height = 3000,
         img_filename = ''example.com_desktop_3.jpg''\<rparr>], 3, [])"
  by (simp add: pair_defs demo_capture_3 demo_filename_3)

lemma demo_pair_4:
  "capture_pair demo_platform demo_config demo_now ''https://example.com/about'' ''example.com''
     ''-about'' demo_mobile (images, 3, [])
   = (images @ [\<lparr>img_id = ''uuid-0'', img_url = ''https://example.com/about'',
         img_dataUrl = ''data:image/jpeg;base64,placeholder'',
         img_viewport = Mobile, img_width = 393, img_height = 852,
         img_filename = ''error_example.com_mobile.jpg''\<rparr>], 4, [])"
  by (simp add: pair_defs demo_capture_4)

lemma demo_clean:
  "cleanHostname ''example.com'' = ''example.com''"
  "cleanPath ''/'' = []"
  "cleanPath ''/about'' = ''-about''"
  by (simp_all add: cleanHostname_def cleanPath_def replace_first_def replace_all_def)

lemma demo_run:
  "generateScreenshots demo_platform ''example.com'' demo_config demo_script
    = Inr [\<lparr>img_id = ''uuid-4'', img_url = ''https://example.com/'',
             img_dataUrl = ''data:image/jpeg;base64,'' @ replicate 120 (CHR ''A''),
             img_viewport = Desktop, img_width = 1440, img_height = 3000,
             img_filename = ''example.com_desktop_1.jpg''\<rparr>,
           \<lparr>img_id = ''uuid-2'', img_url = ''https://example.com/'',
             img_dataUrl = ''data:image/jpeg;base64,placeholder'',
             img_viewport = Mobile, img_width = 393, img_height = 852,
             img_filename = ''error_example.com_mobile.jpg''\<rparr>,
           \<lparr>img_id = ''uuid-0'', img_url = ''https://example.com/about'',
             img_dataUrl = ''data:image/jpeg;base64,'' @ replicate 150 (CHR ''A''),
             img_viewport = Desktop, img_width = 1440, img_height = 3000,
             img_filename = ''example.com_desktop_3.jpg''\<rparr>,
           \<lparr>img_id = ''uuid-0'', img_url = ''https://example.com/about'',
             img_dataUrl = ''data:image/jpeg;base64,placeholder'',
             img_viewport = Mobile, img_width = 393, img_height = 852,
             img_filename = ''error_example.com_mobile.jpg''\<rparr>]"
proof -
  have now: "new_Date demo_platform w = demo_now" for w
    by (simp add: demo_fields demo_now_def)
  show ?thesis
    by (simp add: generateScreenshots_def demo_urls demo_viewports now demo_fields(1)
        demo_parse_root demo_parse_about demo_clean demo_pair_1 demo_pair_2 demo_pair_3 demo_pair_4)
qed

section \<open>The claims on the example run\<close>

theorem generateScreenshots_length_witness:
  "list_all (\<lambda>u. new_URL demo_platform u \<noteq> None)
     (fst (urlsToCapture demo_platform ''example.com'' demo_config demo_script))
   \<and> length (fst (urlsToCapture demo_platform ''example.com'' demo_config demo_script)) = 2
   \<and> length (viewports_of demo_config) = 2
   \<and> (\<exists>images. generateScreenshots demo_platform ''example.com'' demo_config demo_script = Inr images
         \<and> length images = 4
         \<and> map img_filename images
             = [''example.com_desktop_1.jpg'', ''error_example.com_mobile.jpg'',
                ''example.com_desktop_3.jpg'', ''error_example.com_mobile.jpg''])"
  using generateScreenshots_length [of demo_platform "''example.com''" demo_config demo_script]
  by (simp add: demo_run demo_urls demo_viewports demo_fields(1) demo_parse_root demo_parse_about)

lemma demo_crawl_offline:
  "crawlForLinks demo_platform ''https://example.com/'' 2 [] = (Inr [''https://example.com/''], [])"
  by (simp add: crawlForLinks_def demo_fields demo_parse_root strip_trailing_slash_def find_links_def)

lemma demo_root_is_URL:
  "new_URL demo_platform ''https://example.com/''
     = Some \<lparr>href = ''https://example.com/'', hostname = ''example.com'', pathname = ''/''\<rparr>"
  by (simp add: demo_fields demo_parse_root)

theorem crawlForLinks_root_and_host_witness:
  "new_URL demo_platform ''https://example.com/''
     = Some \<lparr>href = ''https://example.com/'', hostname = ''example.com'', pathname = ''/''\<rparr>
   \<and> serialisation_stable demo_platform
   \<and> crawlForLinks demo_platform ''https://example.com/'' 2 demo_script
       = (Inr [''https://example.com/'', ''https://example.com/about''],
          [jpeg 120, status 500, status 500, status 404, jpeg 150])
   \<and> hd [''https://example.com/'', ''https://example.com/about''] = ''https://example.com/''
   \<and> (\<exists>u. new_URL demo_platform ''https://example.com/about'' = Some u \<and> hostname u = ''example.com'')
   \<and> crawlForLinks demo_platform ''https://example.com/'' 2 [] = (Inr [''https://example.com/''], [])"
proof -
  note t = crawlForLinks_root_and_host [OF demo_root_is_URL demo_serialisation_stable, of 2 demo_script]
  from t demo_crawl
  have "\<exists>u. new_URL demo_platform ''https://example.com/about'' = Some u \<and> hostname u = ''example.com''"
    by simp
  with demo_root_is_URL demo_serialisation_stable demo_crawl demo_crawl_offline show ?thesis
    by simp
qed

theorem crawlForLinks_distinct_witness:
  "crawlForLinks demo_platform ''https://example.com/'' 2 demo_script
       = (Inr [''https://example.com/'', ''https://example.com/about''],
          [jpeg 120, status 500, status 500, status 404, jpeg 150])
   \<and> distinct (map strip_trailing_slash [''https://example.com/'', ''https://example.com/about''])"
  using crawlForLinks_distinct [OF demo_crawl] demo_crawl by blast

definition demo_www_rq :: capture_request where
  "demo_www_rq = \<lparr>rq_url = ''https://www.example.com/'', rq_width = vp_width demo_mobile,
     rq_height = vp_height demo_mobile, rq_type = vp_type demo_mobile,
     rq_fullPage = cfg_fullPage demo_config\<rparr>"

lemma demo_www_is_URL:
  "new_URL demo_platform ''https://www.example.com/''
     = Some \<lparr>href = ''https://www.example.com/'', hostname = ''www.example.com'', pathname = ''/''\<rparr>"
  by (simp add: demo_url_defs)

lemma demo_www_all_fail:
  "all_fail demo_platform demo_www_rq (strategy (vp_type demo_mobile) (cfg_fullPage demo_config))
     [status 500, status 404]"
  by (simp add: demo_www_rq_def strategy_def providers_def accepted_def fetched_def attempt_def
      getUrl_def useProxy_def fetchImageAsBase64_def valid_image_def status_def demo_fields
      demo_viewport_fields demo_config_fields)

lemma demo_www_clean: "cleanHostname ''www.example.com'' = ''example.com''"
  by (simp add: cleanHostname_def replace_first_def)

lemma error_placeholder_entry_example:
  "new_URL demo_platform ''https://www.example.com/''
     = Some \<lparr>href = ''https://www.example.com/'', hostname = ''www.example.com'', pathname = ''/''\<rparr>
   \<and> all_fail demo_platform demo_www_rq (strategy (vp_type demo_mobile) (cfg_fullPage demo_config))
       [status 500, status 404]
   \<and> (\<exists>img n' w'. capture_pages demo_platform demo_config demo_now [demo_mobile]
          [''https://www.example.com/''] ([], 0, [status 500, status 404]) = Inr ([img], n', w')
        \<and> img_filename img = ''error_example.com_mobile.jpg''
        \<and> img_width img = 393 \<and> img_height img = 852)"
  using error_placeholder_entry [OF demo_www_is_URL demo_www_all_fail [unfolded demo_www_rq_def],
      of demo_now "[]" 0]
    demo_www_is_URL demo_www_all_fail
  by (simp add: demo_www_clean viewport_tag_def demo_viewport_fields) blast

section \<open>Filename Synthesizer: properties\<close>

text \<open>
  \<open>spec_filename_regex\<close> follows the specification's words: the whole name matches
  \<open>[A-Za-z0-9\-_. \[\]()]+\.(jpg|png)\<close>. \<open>loose_filename_regex\<close> is the same expression with an
  optional stem and the extension compared without regard to case.
\<close>

definition spec_filename_regex :: "string \<Rightarrow> bool" where
  "spec_filename_regex s \<longleftrightarrow>
     4 < length s \<and> list_all safe_char (take (length s - 4) s)
     \<and> (drop (length s - 4) s = ''.jpg'' \<or> drop (length s - 4) s = ''.png'')"

definition loose_filename_regex :: "string \<Rightarrow> bool" where
  "loose_filename_regex s \<longleftrightarrow>
     4 \<le> length s \<and> list_all safe_char (take (length s - 4) s)
     \<and> (toLowerCase (drop (length s - 4) s) = ''.jpg'' \<or> toLowerCase (drop (length s - 4) s) = ''.png'')"

lemma sanitize_safe: "list_all safe_char (sanitize s)"
proof -
  have "safe_char (CHR ''_'')" by (simp add: safe_char_def)
  then show ?thesis by (induction s) (simp_all add: sanitize_def)
qed

lemma lower_jpg: "toLowerCase ''.jpg'' = ''.jpg''"
  by (simp add: toLowerCase_def lower_char_def)

lemma endsWith_loose:
  assumes "list_all safe_char s" and "endsWith (toLowerCase s) e" and "length e = 4"
  shows "4 \<le> length s \<and> list_all safe_char (take (length s - 4) s)
     \<and> toLowerCase (drop (length s - 4) s) = e"
proof -
  from assms(2,3) have l: "4 \<le> length s" and d: "drop (length s - 4) (toLowerCase s) = e"
    by (simp_all add: endsWith_def toLowerCase_def)
  have "list_all safe_char (take (length s - 4) s)"
    using assms(1) by (simp add: list_all_iff) (meson in_set_takeD)
  moreover have "toLowerCase (drop (length s - 4) s) = e"
    using d by (simp add: toLowerCase_def drop_map)
  ultimately show ?thesis using l by simp
qed

text \<open>
  C5, amended: for every template and every assignment of the fields, the rendered name
  consists of characters of the set \<open>[A-Za-z0-9\-_. \[\]()]\<close> only and ends in \<open>.jpg\<close> or
  \<open>.png\<close> compared without regard to case; the part before the extension may be empty.
  Rendering is a function of the template and the fields, so equal inputs give equal names.
\<close>

theorem render_filename_pattern:
  "loose_filename_regex (render_filename template host path now vp actualDims currentOp)"
proof -
  let ?t = "if template \<noteq> [] \<and> trim template \<noteq> [] then template else ''{domain}_{date}_{viewport}''"
  let ?s = "sanitize (substitute ?t host path now vp actualDims currentOp)"
  have safe: "list_all safe_char ?s" by (rule sanitize_safe)
  consider (jpg) "endsWith (toLowerCase ?s) ''.jpg''"
    | (png) "\<not> endsWith (toLowerCase ?s) ''.jpg''" "endsWith (toLowerCase ?s) ''.png''"
    | (none) "\<not> endsWith (toLowerCase ?s) ''.jpg''" "\<not> endsWith (toLowerCase ?s) ''.png''"
    by blast
  then show ?thesis
  proof cases
    case jpg
    then have r: "render_filename template host path now vp actualDims currentOp = ?s"
      by (simp add: render_filename_def Let_def)
    from endsWith_loose [OF safe jpg] show ?thesis
      unfolding r loose_filename_regex_def by simp
  next
    case png
    then have r: "render_filename template host path now vp actualDims currentOp = ?s"
      by (simp add: render_filename_def Let_def)
    from endsWith_loose [OF safe png(2)] show ?thesis
      unfolding r loose_filename_regex_def by simp
  next
    case none
    then have r: "render_filename template host path now vp actualDims currentOp = ?s @ ''.jpg''"
      by (simp add: render_filename_def Let_def)
    show ?thesis
      unfolding r loose_filename_regex_def using safe by (simp add: lower_jpg)
  qed
qed

lemma demo_substitute_plain:
  "substitute ''a.JPG'' ''example.com'' [] demo_now demo_desktop (0, 0) (Suc 0) = ''a.JPG''"
  "substitute ''.png'' ''example.com'' [] demo_now demo_desktop (0, 0) (Suc 0) = ''.png''"
  by (simp_all add: substitute_defs)

lemma demo_sanitize_plain: "sanitize ''a.JPG'' = ''a.JPG''" "sanitize ''.png'' = ''.png''"
  by (simp_all add: sanitize_defs)

lemma demo_extension_plain:
  "endsWith (toLowerCase ''a.JPG'') ''.jpg''"
  "\<not> endsWith (toLowerCase ''.png'') ''.jpg''" "endsWith (toLowerCase ''.png'') ''.png''"
  by (simp_all add: extension_defs)

lemma demo_trim_plain: "trim ''a.JPG'' = ''a.JPG''" "trim ''.png'' = ''.png''"
  by (simp_all add: trim_def js_whitespace_def)

text \<open>
  C5, as the specification words it, fails on two templates: \<open>a.JPG\<close> is kept as it is,
  since the extension test lower-cases the name, and \<open>.png\<close> is kept with no stem.
\<close>

theorem render_filename_regex_counterexample:
  "render_filename ''a.JPG'' ''example.com'' [] demo_now demo_desktop (0, 0) (Suc 0) = ''a.JPG''
   \<and> \<not> spec_filename_regex ''a.JPG''
   \<and> render_filename ''.png'' ''example.com'' [] demo_now demo_desktop (0, 0) (Suc 0) = ''.png''
   \<and> \<not> spec_filename_regex ''.png''"
  by (simp add: render_filename_def Let_def demo_trim_plain demo_substitute_plain
      demo_sanitize_plain demo_extension_plain spec_filename_regex_def)

lemma demo_substitute_mobile:
  "substitute ''{domain}_{viewport}_{index}'' ''example.com'' [] demo_now demo_mobile (0, 0) 3
     = ''example.com_mobile_3''"
  "substitute ''{domain}_{viewport}_{index}'' ''aexample.com'' [] demo_now demo_mobile (0, 0) 3
     = ''aexample.com_mobile_3''"
  by (simp_all add: substitute_defs)

lemma demo_sanitize_mobile:
  "sanitize ''example.com_mobile_3'' = ''example.com_mobile_3''"
  "sanitize ''aexample.com_mobile_3'' = ''aexample.com_mobile_3''"
  by (simp_all add: sanitize_defs)

lemma demo_extension_mobile:
  "\<not> endsWith (toLowerCase ''example.com_mobile_3'') ''.jpg''"
  "\<not> endsWith (toLowerCase ''example.com_mobile_3'') ''.png''"
  "\<not> endsWith (toLowerCase ''aexample.com_mobile_3'') ''.jpg''"
  "\<not> endsWith (toLowerCase ''aexample.com_mobile_3'') ''.png''"
  by (simp_all add: extension_defs)

lemma spec_example_filename:
  "render_filename ''{domain}_{viewport}_{index}'' ''example.com'' [] demo_now demo_mobile (0, 0) 3
     = ''example.com_mobile_3.jpg''"
  by (simp add: render_filename_def Let_def demo_template demo_substitute_mobile
      demo_sanitize_mobile demo_extension_mobile)

lemma cleanHostname_leading_www: "cleanHostname (''www.'' @ h) = h"
  by (simp add: cleanHostname_def replace_first_def)

text \<open>
  C6: \<open>{domain}\<close> is replaced by \<open>cleanHostname\<close> of the page's hostname, which removes the
  first \<open>www.\<close> wherever it stands. A leading \<open>www.\<close> is stripped and the specification's
  example renders as stated (the two lemmas above), but for the hostname
  \<open>awww.example.com\<close>, which has no leading \<open>www.\<close>, the name is built from
  \<open>aexample.com\<close>.
\<close>

theorem domain_placeholder_inner_www:
  "new_URL demo_platform ''https://awww.example.com/''
     = Some \<lparr>href = ''https://awww.example.com/'', hostname = ''awww.example.com'', pathname = ''/''\<rparr>
   \<and> cleanHostname ''awww.example.com'' = ''aexample.com''
   \<and> render_filename ''{domain}_{viewport}_{index}'' (cleanHostname ''awww.example.com'') []
         demo_now demo_mobile (0, 0) 3 = ''aexample.com_mobile_3.jpg''"
proof -
  have c: "cleanHostname ''awww.example.com'' = ''aexample.com''"
    by (simp add: cleanHostname_def replace_first_def)
  have u: "new_URL demo_platform ''https://awww.example.com/''
     = Some \<lparr>href = ''https://awww.example.com/'', hostname = ''awww.example.com'', pathname = ''/''\<rparr>"
    by (simp add: demo_url_defs)
  show ?thesis
    unfolding c using u
    by (simp add: render_filename_def Let_def demo_template demo_substitute_mobile
        demo_sanitize_mobile demo_extension_mobile)
qed

lemma demo_substitute_dollar:
  "substitute ''{path}'' ''example.com'' ''-a$&b'' demo_now demo_mobile (0, 0) 3 = ''-a{path}b''"
  by (simp add: substitute_defs)

lemma path_placeholder_dollar_pattern:
  "cleanPath ''/a$&b'' = ''-a$&b''
   \<and> substitute ''{path}'' ''example.com'' (cleanPath ''/a$&b'') demo_now demo_mobile (0, 0) 3
       = ''-a{path}b''"
  by (simp add: cleanPath_def replace_all_def demo_substitute_dollar)

section \<open>The error placeholder and the hostname\<close>

text \<open>
  \<open>strip_leading_www\<close> follows the specification's words for the \<open>{domain}\<close> field: the
  hostname with a leading \<open>www.\<close> stripped, and nothing else changed.
\<close>

definition strip_leading_www :: "string \<Rightarrow> string" where
  "strip_leading_www h = (if startsWith h ''www.'' then drop 4 h else h)"

definition demo_inner_www_rq :: capture_request where
  "demo_inner_www_rq = \<lparr>rq_url = ''https://awww.example.com/'', rq_width = vp_width demo_mobile,
     rq_height = vp_height demo_mobile, rq_type = vp_type demo_mobile,
     rq_fullPage = cfg_fullPage demo_config\<rparr>"

lemma demo_inner_www_is_URL:
  "new_URL demo_platform ''https://awww.example.com/''
     = Some \<lparr>href = ''https://awww.example.com/'', hostname = ''awww.example.com'', pathname = ''/''\<rparr>"
  by (simp add: demo_url_defs)

lemma demo_inner_www_all_fail:
  "all_fail demo_platform demo_inner_www_rq
     (strategy (vp_type demo_mobile) (cfg_fullPage demo_config)) [status 500, status 404]"
  by (simp add: demo_inner_www_rq_def strategy_def providers_def accepted_def fetched_def attempt_def
      getUrl_def useProxy_def fetchImageAsBase64_def valid_image_def status_def demo_fields
      demo_viewport_fields demo_config_fields)

lemma demo_inner_www_clean: "cleanHostname ''awww.example.com'' = ''aexample.com''"
  by (simp add: cleanHostname_def replace_first_def)

lemma demo_inner_www_spec: "strip_leading_www ''awww.example.com'' = ''awww.example.com''"
  by (simp add: strip_leading_www_def startsWith_def)

text \<open>
  C9: when every provider of the selected sequence fails for a pair, the orchestrator appends
  exactly one entry with the width and height of the requested viewport, and the filename
  is \<open>error_\<close>, the stripped hostname, \<open>_\<close>, the viewport tag and \<open>.jpg\<close>. The hostname is
  stripped by \<open>cleanHostname\<close>, which removes the first \<open>www.\<close> wherever it stands: for the
  page \<open>https://awww.example.com/\<close>, whose hostname has no leading \<open>www.\<close>, the entry is named
  \<open>error_aexample.com_mobile.jpg\<close>, where the hostname with its leading \<open>www.\<close> stripped
  gives \<open>error_awww.example.com_mobile.jpg\<close>.
\<close>

theorem error_placeholder_inner_www:
  "new_URL demo_platform ''https://awww.example.com/''
     = Some \<lparr>href = ''https://awww.example.com/'', hostname = ''awww.example.com'', pathname = ''/''\<rparr>
   \<and> all_fail demo_platform demo_inner_www_rq
       (strategy (vp_type demo_mobile) (cfg_fullPage demo_config)) [status 500, status 404]
   \<and> (\<exists>img n' w'. capture_pages demo_platform demo_config demo_now [demo_mobile]
          [''https://awww.example.com/''] ([], 0, [status 500, status 404]) = Inr ([img], n', w')
        \<and> img_filename img = ''error_aexample.com_mobile.jpg''
        \<and> img_width img = 393 \<and> img_height img = 852)
   \<and> ''error_'' @ strip_leading_www ''awww.example.com'' @ ''_'' @ viewport_tag Mobile @ ''.jpg''
       = ''error_awww.example.com_mobile.jpg''"
  using error_placeholder_entry [OF demo_inner_www_is_URL
      demo_inner_www_all_fail [unfolded demo_inner_www_rq_def], of demo_now "[]" 0]
    demo_inner_www_is_URL demo_inner_www_all_fail
  by (simp add: demo_inner_www_clean demo_inner_www_spec viewport_tag_def demo_viewport_fields) blast


section \<open>The URL class for the http and https schemes\<close>

text \<open>
  \<open>normalizeUrl\<close> hands every string to \<open>new URL\<close> with an \<open>http\<close> or \<open>https\<close> scheme in
  front and reads \<open>href\<close> back. What the class does with such a string is fixed by the WHATWG URL
  Standard: the basic URL parser without a base URL, run on a special scheme, and the URL
  serialiser. The parser is written here as the standard's states in order (scheme, authority,
  host, port, path, query, fragment), each as a function that splits the remaining input;
  every failure of the standard is \<open>None\<close>. The host parser (domain to ASCII, IPv4 and IPv6
  addresses) is a parameter.
\<close>

record parsed_url =
  pu_scheme :: string
  pu_username :: string
  pu_password :: string
  pu_host :: string
  pu_port :: "nat option"
  pu_path :: "string list"
  pu_query :: "string option"
  pu_fragment :: "string option"

definition c0_or_space :: "char \<Rightarrow> bool" where
  "c0_or_space c \<longleftrightarrow> (of_char c :: nat) \<le> 32"

definition tab_or_newline :: "char \<Rightarrow> bool" where
  "tab_or_newline c \<longleftrightarrow> (of_char c :: nat) \<in> {9, 10, 13}"

definition preprocess :: "string \<Rightarrow> string" where
  \<comment> \<open>Leading and trailing C0 controls and spaces are stripped, then every tab and newline is removed.\<close>
  "preprocess s = filter (\<lambda>c. \<not> tab_or_newline c)
                    (rev (dropWhile c0_or_space (rev (dropWhile c0_or_space s))))"

definition c0_control_set :: "char \<Rightarrow> bool" where
  "c0_control_set c \<longleftrightarrow> (of_char c :: nat) < 32 \<or> 126 < (of_char c :: nat)"

definition fragment_set :: "char \<Rightarrow> bool" where
  "fragment_set c \<longleftrightarrow> c0_control_set c \<or> (of_char c :: nat) \<in> {32, 34, 60, 62, 96}"

definition query_set :: "char \<Rightarrow> bool" where
  "query_set c \<longleftrightarrow> c0_control_set c \<or> (of_char c :: nat) \<in> {32, 34, 35, 60, 62}"

definition special_query_set :: "char \<Rightarrow> bool" where
  "special_query_set c \<longleftrightarrow> query_set c \<or> (of_char c :: nat) = 39"

definition path_set :: "char \<Rightarrow> bool" where
  "path_set c \<longleftrightarrow> query_set c \<or> (of_char c :: nat) \<in> {63, 94, 96, 123, 125}"

definition userinfo_set :: "char \<Rightarrow> bool" where
  "userinfo_set c \<longleftrightarrow> path_set c \<or> (of_char c :: nat) \<in> {47, 58, 59, 61, 64, 91, 92, 93, 124}"

definition percent_encode :: "(char \<Rightarrow> bool) \<Rightarrow> string \<Rightarrow> string" where
  \<comment> \<open>UTF-8 percent-encoding of the code units that lie in the given set.\<close>
  "percent_encode S s = concat (map (\<lambda>c. if S c then utf8_percent c else [c]) s)"

definition is_slash :: "char \<Rightarrow> bool" where
  "is_slash c \<longleftrightarrow> c = CHR ''/'' \<or> c = CHR 0x5C"

definition ends_authority :: "char \<Rightarrow> bool" where
  "ends_authority c \<longleftrightarrow> is_slash c \<or> c = CHR ''?'' \<or> c = CHR ''#''"

fun split_last_at :: "string \<Rightarrow> (string \<times> string) option" where
  \<comment> \<open>Authority state: the credentials end at the last \<open>@\<close> of the authority.\<close>
  "split_last_at [] = None"
| "split_last_at (c # cs) =
     (case split_last_at cs of
        Some (a, b) \<Rightarrow> Some (c # a, b)
      | None \<Rightarrow> if c = CHR ''@'' then Some ([], cs) else None)"

fun split_host :: "bool \<Rightarrow> string \<Rightarrow> string \<times> string option" where
  \<comment> \<open>Host state: the host ends at the first colon outside square brackets; the port follows it.\<close>
  "split_host inside [] = ([], None)"
| "split_host inside (c # cs) =
     (if c = CHR '':'' \<and> \<not> inside then ([], Some cs)
      else (case split_host (if c = CHR ''['' then True else if c = CHR '']'' then False else inside) cs of
              (h, r) \<Rightarrow> (c # h, r)))"

definition is_digit :: "char \<Rightarrow> bool" where
  "is_digit c \<longleftrightarrow> 48 \<le> (of_char c :: nat) \<and> (of_char c :: nat) \<le> 57"

definition parse_nat :: "string \<Rightarrow> nat" where
  "parse_nat s = foldl (\<lambda>n c. 10 * n + ((of_char c :: nat) - 48)) 0 s"

definition default_port :: "string \<Rightarrow> nat" where
  "default_port scheme = (if scheme = ''https'' then 443 else 80)"

fun split_segments :: "string \<Rightarrow> string \<Rightarrow> string list" where
  \<comment> \<open>Path state: a slash or a backslash ends a segment.\<close>
  "split_segments acc [] = [acc]"
| "split_segments acc (c # cs) =
     (if is_slash c then acc # split_segments [] cs else split_segments (acc @ [c]) cs)"

definition single_dot :: "string \<Rightarrow> bool" where
  "single_dot e \<longleftrightarrow> map ascii_lower e \<in> {''.'', ''%2e''}"

definition double_dot :: "string \<Rightarrow> bool" where
  "double_dot e \<longleftrightarrow> map ascii_lower e \<in> {''..'', ''.%2e'', ''%2e.'', ''%2e%2e''}"

fun build_path :: "string list \<Rightarrow> string list \<Rightarrow> string list" where
  \<comment> \<open>Path state: a double-dot segment shortens the path, a single-dot segment is skipped, and
      either one in last position leaves an empty segment.\<close>
  "build_path path [] = path"
| "build_path path [seg] =
     (let e = percent_encode path_set seg
      in if double_dot e then butlast path @ [[]]
         else if single_dot e then path @ [[]]
         else path @ [e])"
| "build_path path (seg # s2 # segs) =
     (let e = percent_encode path_set seg
      in if double_dot e then build_path (butlast path) (s2 # segs)
         else if single_dot e then build_path path (s2 # segs)
         else build_path (path @ [e]) (s2 # segs))"

definition parse_credentials :: "string \<Rightarrow> string \<times> string" where
  \<comment> \<open>The first colon separates the username from the password; both are percent-encoded.\<close>
  "parse_credentials cred =
     (percent_encode userinfo_set (takeWhile (\<lambda>c. c \<noteq> CHR '':'') cred),
      percent_encode userinfo_set (drop 1 (dropWhile (\<lambda>c. c \<noteq> CHR '':'') cred)))"

definition parse_port :: "string \<Rightarrow> string option \<Rightarrow> nat option option" where
  \<comment> \<open>Port state: digits only, at most 65535; the default port of the scheme is dropped.\<close>
  "parse_port scheme port_raw =
     (case port_raw of
        None \<Rightarrow> Some None
      | Some pr \<Rightarrow>
          if \<not> list_all is_digit pr \<or> 65535 < parse_nat pr then None
          else if pr = [] \<or> parse_nat pr = default_port scheme then Some None
          else Some (Some (parse_nat pr)))"

definition parse_authority ::
  "(string \<Rightarrow> string option) \<Rightarrow> string \<Rightarrow> string
     \<Rightarrow> ((string \<times> string) \<times> string \<times> nat option) option"
where
  "parse_authority host_parser scheme auth =
     (let cred = (case split_last_at auth of Some (a, b) \<Rightarrow> a | None \<Rightarrow> []);
          hostport = (case split_last_at auth of Some (a, b) \<Rightarrow> b | None \<Rightarrow> auth);
          host_raw = fst (split_host False hostport);
          port_raw = snd (split_host False hostport)
      in if host_raw = [] then None
         else case parse_port scheme port_raw of
             None \<Rightarrow> None
           | Some port \<Rightarrow>
               (case host_parser host_raw of
                  None \<Rightarrow> None
                | Some host \<Rightarrow> Some (parse_credentials cred, host, port)))"

definition parse_fragment :: "string \<Rightarrow> string option" where
  "parse_fragment rest = (if rest \<noteq> [] then Some (percent_encode fragment_set (tl rest)) else None)"

definition parse_query_fragment :: "string \<Rightarrow> string option \<times> string option" where
  "parse_query_fragment rest =
     (if rest \<noteq> [] \<and> hd rest = CHR ''?''
      then (Some (percent_encode special_query_set (takeWhile (\<lambda>c. c \<noteq> CHR ''#'') (tl rest))),
            parse_fragment (dropWhile (\<lambda>c. c \<noteq> CHR ''#'') (tl rest)))
      else (None, parse_fragment rest))"

definition parse_tail :: "string \<Rightarrow> string list \<times> string option \<times> string option" where
  "parse_tail after =
     (let after' = (if after \<noteq> [] \<and> is_slash (hd after) then tl after else after);
          path_str = takeWhile (\<lambda>c. c \<noteq> CHR ''?'' \<and> c \<noteq> CHR ''#'') after';
          rest = dropWhile (\<lambda>c. c \<noteq> CHR ''?'' \<and> c \<noteq> CHR ''#'') after'
      in (build_path [] (split_segments [] path_str), parse_query_fragment rest))"

definition parse_after ::
  "(string \<Rightarrow> string option) \<Rightarrow> string \<Rightarrow> string \<Rightarrow> parsed_url option" where
  \<comment> \<open>After the scheme and its colon: every slash and backslash is skipped, the authority runs
      to the next slash, backslash, \<open>?\<close> or \<open>#\<close>.\<close>
  "parse_after host_parser scheme r =
     (let rest = dropWhile is_slash r;
          auth = takeWhile (\<lambda>c. \<not> ends_authority c) rest;
          after = dropWhile (\<lambda>c. \<not> ends_authority c) rest
      in case parse_authority host_parser scheme auth of
           None \<Rightarrow> None
         | Some ((username, password), host, port) \<Rightarrow>
             (case parse_tail after of
                (path, query, fragment) \<Rightarrow>
                  Some \<lparr>pu_scheme = scheme, pu_username = username, pu_password = password,
                        pu_host = host, pu_port = port, pu_path = path, pu_query = query,
                        pu_fragment = fragment\<rparr>))"

definition parse_http :: "(string \<Rightarrow> string option) \<Rightarrow> string \<Rightarrow> parsed_url option" where
  \<comment> \<open>The parser without a base URL on an input whose scheme is \<open>http\<close> or \<open>https\<close>.\<close>
  "parse_http host_parser input =
     (let p = preprocess input;
          l = map ascii_lower p
      in if take 8 l = ''https://'' then parse_after host_parser ''https'' (drop 8 p)
         else if take 7 l = ''http://'' then parse_after host_parser ''http'' (drop 7 p)
         else None)"

definition serialize_path :: "string list \<Rightarrow> string" where
  "serialize_path path = concat (map (\<lambda>seg. CHR ''/'' # seg) path)"

definition serialize :: "parsed_url \<Rightarrow> string" where
  "serialize u =
     pu_scheme u @ ''://''
     @ (if pu_username u \<noteq> [] \<or> pu_password u \<noteq> []
        then pu_username u @ (if pu_password u \<noteq> [] then CHR '':'' # pu_password u else []) @ ''@''
        else [])
     @ pu_host u
     @ (case pu_port u of None \<Rightarrow> [] | Some n \<Rightarrow> CHR '':'' # show_nat n)
     @ serialize_path (pu_path u)
     @ (case pu_query u of None \<Rightarrow> [] | Some q \<Rightarrow> CHR ''?'' # q)
     @ (case pu_fragment u of None \<Rightarrow> [] | Some f \<Rightarrow> CHR ''#'' # f)"

definition url_of :: "parsed_url \<Rightarrow> url" where
  "url_of u = \<lparr>href = serialize u, hostname = pu_host u, pathname = serialize_path (pu_path u)\<rparr>"


section \<open>The URL class: a serialised URL parses back to itself\<close>

text \<open>
  Every URL record the parser returns is well formed (\<open>wf_url\<close>): its components only hold
  code units that the parser leaves alone, the port is not the default one, no path segment is
  a dot segment. The serialisation of a well-formed record consists of visible ASCII only,
  starts with the scheme, and is parsed back to the same record.
\<close>

definition visible :: "char \<Rightarrow> bool" where
  "visible c \<longleftrightarrow> 32 < (of_char c :: nat) \<and> (of_char c :: nat) < 127"

definition hexish :: "char \<Rightarrow> bool" where
  "hexish c \<longleftrightarrow> (of_char c :: nat) = 37 \<or> (48 \<le> (of_char c :: nat) \<and> (of_char c :: nat) \<le> 57)
                 \<or> (65 \<le> (of_char c :: nat) \<and> (of_char c :: nat) \<le> 70)"

lemma of_char_char_of: "n < 256 \<Longrightarrow> (of_char (char_of n) :: nat) = n"
  by simp

lemma hexish_hex_digit: "d < 16 \<Longrightarrow> hexish (hex_digit d)"
  by (simp add: hexish_def hex_digit_def)

lemma hexish_percent_byte: "b < 256 \<Longrightarrow> list_all hexish (percent_byte b)"
proof -
  assume "b < 256"
  then have "b div 16 < 16" "b mod 16 < 16" by auto
  then show ?thesis
    by (simp add: percent_byte_def hexish_hex_digit) (simp add: hexish_def)
qed

lemma dropWhile_none: "(\<And>c. c \<in> set s \<Longrightarrow> \<not> P c) \<Longrightarrow> dropWhile P s = s"
  by (cases s) auto

lemma hexish_utf8_percent: "list_all hexish (utf8_percent c)"
proof -
  let ?n = "of_char c :: nat"
  have n: "?n < 256" by simp
  then have "192 + ?n div 64 < 256" "128 + ?n mod 64 < 256" by arith+
  with n show ?thesis
    by (simp add: utf8_percent_def Let_def hexish_percent_byte)
qed

definition clean :: "(char \<Rightarrow> bool) \<Rightarrow> string \<Rightarrow> bool" where
  "clean S s \<longleftrightarrow> list_all (\<lambda>c. \<not> S c) s"

lemma percent_encode_clean:
  assumes "\<And>c. hexish c \<Longrightarrow> \<not> S c"
  shows "clean S (percent_encode S s)"
proof (induction s)
  case Nil
  show ?case by (simp add: clean_def percent_encode_def)
next
  case (Cons c s)
  have "list_all (\<lambda>c. \<not> S c) (utf8_percent c)"
    using hexish_utf8_percent [of c] assms by (simp add: list_all_iff)
  with Cons show ?case
    by (simp add: clean_def percent_encode_def)
qed

lemma percent_encode_id: "clean S s \<Longrightarrow> percent_encode S s = s"
  by (induction s) (simp_all add: clean_def percent_encode_def)

lemma hexish_not_userinfo: "hexish c \<Longrightarrow> \<not> userinfo_set c"
  by (auto simp: hexish_def userinfo_set_def path_set_def query_set_def c0_control_set_def)

lemma hexish_not_path: "hexish c \<Longrightarrow> \<not> path_set c"
  by (auto simp: hexish_def path_set_def query_set_def c0_control_set_def)

lemma hexish_not_query: "hexish c \<Longrightarrow> \<not> special_query_set c"
  by (auto simp: hexish_def special_query_set_def query_set_def c0_control_set_def)

lemma hexish_not_fragment: "hexish c \<Longrightarrow> \<not> fragment_set c"
  by (auto simp: hexish_def fragment_set_def c0_control_set_def)

lemma hexish_not_slash: "hexish c \<Longrightarrow> \<not> is_slash c"
  by (auto simp: hexish_def is_slash_def)

lemma not_fragment_visible: "\<not> fragment_set c \<Longrightarrow> visible c"
  by (auto simp: fragment_set_def c0_control_set_def visible_def)

lemma not_plain_query_visible: "\<not> query_set c \<Longrightarrow> visible c"
  by (auto simp: query_set_def c0_control_set_def visible_def)

lemma not_query_visible: "\<not> special_query_set c \<Longrightarrow> visible c"
  using not_plain_query_visible [of c] by (simp add: special_query_set_def)

lemma not_path_visible: "\<not> path_set c \<Longrightarrow> visible c"
  using not_plain_query_visible [of c] by (simp add: path_set_def)

lemma not_userinfo_visible: "\<not> userinfo_set c \<Longrightarrow> visible c"
  using not_path_visible [of c] by (simp add: userinfo_set_def)

lemma preprocess_visible: "list_all visible s \<Longrightarrow> preprocess s = s"
proof -
  assume v: "list_all visible s"
  have nc: "\<not> c0_or_space c" if "c \<in> set s" for c
    using v that by (auto simp: list_all_iff visible_def c0_or_space_def)
  have nt: "\<not> tab_or_newline c" if "c \<in> set s" for c
    using v that by (auto simp: list_all_iff visible_def tab_or_newline_def)
  have 1: "dropWhile c0_or_space s = s"
    by (rule dropWhile_none) (rule nc)
  have 2: "dropWhile c0_or_space (rev s) = rev s"
    by (rule dropWhile_none) (simp add: nc)
  show ?thesis
    unfolding preprocess_def 1 2 using nt by (simp add: filter_id_conv)
qed

lemma trim_visible: "list_all visible s \<Longrightarrow> trim s = s"
proof -
  assume v: "list_all visible s"
  have nc: "\<not> js_whitespace c" if "c \<in> set s" for c
    using v that by (auto simp: list_all_iff visible_def js_whitespace_def)
  have 1: "dropWhile js_whitespace s = s"
    by (rule dropWhile_none) (rule nc)
  have 2: "dropWhile js_whitespace (rev s) = rev s"
    by (rule dropWhile_none) (simp add: nc)
  show ?thesis
    unfolding trim_def 1 2 by simp
qed

lemma parse_nat_snoc: "parse_nat (s @ [c]) = 10 * parse_nat s + ((of_char c :: nat) - 48)"
  by (simp add: parse_nat_def)

lemma of_char_digit_char: "d < 10 \<Longrightarrow> (of_char (digit_char d) :: nat) = 48 + d"
  by (simp add: digit_char_def)

lemma parse_nat_show_nat: "parse_nat (show_nat n) = n"
proof (induction n rule: show_nat.induct)
  case (1 n)
  show ?case
  proof (cases "n < 10")
    case True
    then show ?thesis
      by (subst show_nat.simps) (simp add: parse_nat_def of_char_digit_char)
  next
    case False
    with 1 have "parse_nat (show_nat (n div 10)) = n div 10" by simp
    with False show ?thesis
      by (subst show_nat.simps) (simp add: parse_nat_snoc of_char_digit_char)
  qed
qed

lemma digits_show_nat: "list_all is_digit (show_nat n)"
proof (induction n rule: show_nat.induct)
  case (1 n)
  have d: "is_digit (digit_char k)" if "k < 10" for k
    using that by (simp add: is_digit_def of_char_digit_char)
  show ?case
  proof (cases "n < 10")
    case True
    then show ?thesis by (subst show_nat.simps) (simp add: d)
  next
    case False
    with 1 have "list_all is_digit (show_nat (n div 10))" by simp
    with False show ?thesis by (subst show_nat.simps) (simp add: d)
  qed
qed

lemma show_nat_nonempty: "show_nat n \<noteq> []"
  by (subst show_nat.simps) simp

lemma is_digit_plain:
  "is_digit c \<Longrightarrow> visible c \<and> \<not> ends_authority c \<and> c \<noteq> CHR ''@'' \<and> c \<noteq> CHR '':''"
  by (auto simp: is_digit_def visible_def ends_authority_def is_slash_def)

lemma split_last_at_none: "list_all (\<lambda>c. c \<noteq> CHR ''@'') b \<Longrightarrow> split_last_at b = None"
  by (induction b) simp_all

lemma split_last_at_some:
  "list_all (\<lambda>c. c \<noteq> CHR ''@'') b \<Longrightarrow> split_last_at (a @ CHR ''@'' # b) = Some (a, b)"
  by (induction a) (simp_all add: split_last_at_none)

lemma split_host_plain:
  "list_all (\<lambda>c. c \<noteq> CHR '':'' \<and> c \<noteq> CHR ''['' \<and> c \<noteq> CHR '']'') h \<Longrightarrow>
   split_host b (h @ r) = (h @ fst (split_host b r), snd (split_host b r))"
  by (induction h) (simp_all split: prod.splits)

lemma split_host_inner:
  "list_all (\<lambda>c. c \<noteq> CHR ''['' \<and> c \<noteq> CHR '']'') h \<Longrightarrow>
   split_host True (h @ r) = (h @ fst (split_host True r), snd (split_host True r))"
  by (induction h) (simp_all split: prod.splits)

definition host_ok :: "string \<Rightarrow> bool" where
  "host_ok a \<longleftrightarrow>
     a \<noteq> [] \<and> list_all visible a \<and> list_all (\<lambda>c. \<not> ends_authority c \<and> c \<noteq> CHR ''@'') a
     \<and> (list_all (\<lambda>c. c \<noteq> CHR '':'' \<and> c \<noteq> CHR ''['' \<and> c \<noteq> CHR '']'') a
        \<or> (2 \<le> length a \<and> hd a = CHR ''['' \<and> last a = CHR '']''
            \<and> list_all (\<lambda>c. c \<noteq> CHR ''['' \<and> c \<noteq> CHR '']'') (butlast (tl a))))"

lemma split_host_ok:
  assumes "host_ok a"
  shows "split_host False (a @ r) = (a @ fst (split_host False r), snd (split_host False r))"
proof (cases "list_all (\<lambda>c. c \<noteq> CHR '':'' \<and> c \<noteq> CHR ''['' \<and> c \<noteq> CHR '']'') a")
  case True
  then show ?thesis by (rule split_host_plain)
next
  case False
  with assms have l: "2 \<le> length a" and h: "hd a = CHR ''[''" and e: "last a = CHR '']''"
      and m: "list_all (\<lambda>c. c \<noteq> CHR ''['' \<and> c \<noteq> CHR '']'') (butlast (tl a))"
    by (auto simp: host_ok_def)
  from l obtain x xs where a: "a = x # xs" and xs: "xs \<noteq> []"
    by (cases a) (auto simp: Suc_le_eq)
  from a h have x: "x = CHR ''[''" by simp
  from xs have xs': "xs = butlast xs @ [last xs]" by simp
  from a e xs have lx: "last xs = CHR '']''" by simp
  from m a have mm: "list_all (\<lambda>c. c \<noteq> CHR ''['' \<and> c \<noteq> CHR '']'') (butlast xs)" by simp
  have "split_host True (butlast xs @ (CHR '']'' # r))
      = (butlast xs @ fst (split_host True (CHR '']'' # r)), snd (split_host True (CHR '']'' # r)))"
    using mm by (rule split_host_inner)
  then have "split_host True ((butlast xs @ [CHR '']'']) @ r)
      = ((butlast xs @ [CHR '']'']) @ fst (split_host False r), snd (split_host False r))"
    by (simp split: prod.splits)
  with xs' lx have "split_host True (xs @ r) = (xs @ fst (split_host False r), snd (split_host False r))"
    by metis
  then show ?thesis
    by (simp add: a x split: prod.splits)
qed

lemma split_host_port:
  "host_ok a \<Longrightarrow> split_host False (a @ CHR '':'' # ds) = (a, Some ds)"
  "host_ok a \<Longrightarrow> split_host False a = (a, None)"
  using split_host_ok [of a "CHR '':'' # ds"] split_host_ok [of a "[]"] by simp_all

definition good_segment :: "string \<Rightarrow> bool" where
  "good_segment seg \<longleftrightarrow>
     clean path_set seg \<and> list_all (\<lambda>c. \<not> is_slash c) seg \<and> \<not> single_dot seg \<and> \<not> double_dot seg"

lemma split_segments_acc:
  "list_all (\<lambda>c. \<not> is_slash c) s \<Longrightarrow> split_segments acc (s @ r) = split_segments (acc @ s) r"
  by (induction s arbitrary: acc) simp_all

lemma split_segments_serialized:
  "list_all (\<lambda>seg. list_all (\<lambda>c. \<not> is_slash c) seg) segs \<Longrightarrow>
   split_segments acc (serialize_path segs) = acc # segs"
proof (induction segs arbitrary: acc)
  case Nil
  show ?case by (simp add: serialize_path_def)
next
  case (Cons seg segs)
  have "split_segments [] (seg @ serialize_path segs) = split_segments seg (serialize_path segs)"
    using Cons.prems split_segments_acc [of seg "[]" "serialize_path segs"] by simp
  with Cons show ?case
    by (simp add: serialize_path_def is_slash_def)
qed

lemma split_segments_no_slash:
  "list_all (\<lambda>c. \<not> is_slash c) acc \<Longrightarrow>
   list_all (\<lambda>seg. list_all (\<lambda>c. \<not> is_slash c) seg) (split_segments acc s)"
  by (induction s arbitrary: acc) simp_all

lemma split_segments_nonempty: "split_segments acc s \<noteq> []"
  by (induction s arbitrary: acc) simp_all

lemma build_path_good:
  "segs \<noteq> [] \<Longrightarrow> list_all good_segment segs \<Longrightarrow> build_path path segs = path @ segs"
proof (induction path segs rule: build_path.induct)
  case (1 path)
  then show ?case by simp
next
  case (2 path seg)
  then have "percent_encode path_set seg = seg"
    by (simp add: good_segment_def percent_encode_id)
  with 2 show ?case by (simp add: good_segment_def)
next
  case (3 path seg s2 segs)
  then have e: "percent_encode path_set seg = seg"
    by (simp add: good_segment_def percent_encode_id)
  from 3 have nd: "\<not> double_dot seg" "\<not> single_dot seg"
    by (simp_all add: good_segment_def)
  from 3 have "build_path (path @ [seg]) (s2 # segs) = (path @ [seg]) @ s2 # segs"
    by (simp add: e nd)
  then show ?case by (simp add: e nd)
qed

lemma good_empty: "good_segment []"
  by (simp add: good_segment_def clean_def single_dot_def double_dot_def)

lemma percent_encode_no_slash:
  "list_all (\<lambda>c. \<not> is_slash c) s \<Longrightarrow> list_all (\<lambda>c. \<not> is_slash c) (percent_encode S s)"
proof (induction s)
  case Nil
  show ?case by (simp add: percent_encode_def)
next
  case (Cons c s)
  have "list_all (\<lambda>c. \<not> is_slash c) (utf8_percent c)"
    using hexish_utf8_percent [of c] hexish_not_slash by (simp add: list_all_iff)
  with Cons show ?case by (simp add: percent_encode_def)
qed

lemma build_path_result:
  "segs \<noteq> [] \<Longrightarrow> list_all good_segment path \<Longrightarrow>
   list_all (\<lambda>seg. list_all (\<lambda>c. \<not> is_slash c) seg) segs \<Longrightarrow>
   build_path path segs \<noteq> [] \<and> list_all good_segment (build_path path segs)"
proof (induction path segs rule: build_path.induct)
  case (1 path)
  then show ?case by simp
next
  case (2 path seg)
  let ?e = "percent_encode path_set seg"
  have c: "clean path_set ?e" by (rule percent_encode_clean) (rule hexish_not_path)
  have s: "list_all (\<lambda>c. \<not> is_slash c) ?e" using 2 by (simp add: percent_encode_no_slash)
  have b: "list_all good_segment (butlast path)"
    using 2 by (simp add: list_all_iff) (meson in_set_butlastD)
  have ge: "good_segment ?e" if "\<not> double_dot ?e" "\<not> single_dot ?e"
    using that c s by (simp add: good_segment_def)
  show ?case
    using 2(2) b ge by (simp add: Let_def good_empty)
next
  case (3 path seg s2 segs)
  let ?e = "percent_encode path_set seg"
  have c: "clean path_set ?e" by (rule percent_encode_clean) (rule hexish_not_path)
  have s: "list_all (\<lambda>c. \<not> is_slash c) ?e" using 3 by (simp add: percent_encode_no_slash)
  have b: "list_all good_segment (butlast path)"
    using 3 by (simp add: list_all_iff) (meson in_set_butlastD)
  show ?case
  proof (cases "double_dot ?e")
    case True
    with 3 b show ?thesis by simp
  next
    case False
    show ?thesis
    proof (cases "single_dot ?e")
      case True
      with False 3 show ?thesis by simp
    next
      case nd: False
      have "good_segment ?e"
        using c s False nd by (simp add: good_segment_def)
      with "3.prems" have "list_all good_segment (path @ [?e])" by simp
      with False nd 3 show ?thesis by simp
    qed
  qed
qed

text \<open>
  The two laws of the host parser: a host it returns is not empty, consists of visible ASCII
  without \<open>/ \ ? # @\<close>, holds a colon or a square bracket only as a bracketed IPv6 literal,
  and is parsed to itself.
\<close>

definition host_parser_laws :: "(string \<Rightarrow> string option) \<Rightarrow> bool" where
  "host_parser_laws hp \<longleftrightarrow> (\<forall>h a. hp h = Some a \<longrightarrow> host_ok a \<and> hp a = Some a)"

definition port_ok :: "string \<Rightarrow> nat option \<Rightarrow> bool" where
  "port_ok scheme port = (case port of None \<Rightarrow> True | Some n \<Rightarrow> n \<le> 65535 \<and> n \<noteq> default_port scheme)"

definition wf_url :: "(string \<Rightarrow> string option) \<Rightarrow> parsed_url \<Rightarrow> bool" where
  "wf_url hp u \<longleftrightarrow>
     (pu_scheme u = ''http'' \<or> pu_scheme u = ''https'')
     \<and> clean userinfo_set (pu_username u) \<and> clean userinfo_set (pu_password u)
     \<and> host_ok (pu_host u) \<and> hp (pu_host u) = Some (pu_host u)
     \<and> port_ok (pu_scheme u) (pu_port u)
     \<and> pu_path u \<noteq> [] \<and> list_all good_segment (pu_path u)
     \<and> (case pu_query u of None \<Rightarrow> True | Some q \<Rightarrow> clean special_query_set q)
     \<and> (case pu_fragment u of None \<Rightarrow> True | Some f \<Rightarrow> clean fragment_set f)"

definition serialize_credentials :: "string \<Rightarrow> string \<Rightarrow> string" where
  "serialize_credentials username password =
     (if username \<noteq> [] \<or> password \<noteq> []
      then username @ (if password \<noteq> [] then CHR '':'' # password else []) @ ''@''
      else [])"

definition serialize_port :: "nat option \<Rightarrow> string" where
  "serialize_port port = (case port of None \<Rightarrow> [] | Some n \<Rightarrow> CHR '':'' # show_nat n)"

definition serialize_tail :: "string option \<Rightarrow> string option \<Rightarrow> string" where
  "serialize_tail query fragment =
     (case query of None \<Rightarrow> [] | Some q \<Rightarrow> CHR ''?'' # q)
     @ (case fragment of None \<Rightarrow> [] | Some f \<Rightarrow> CHR ''#'' # f)"

lemma serialize_parts:
  "serialize u = pu_scheme u @ ''://''
     @ (serialize_credentials (pu_username u) (pu_password u) @ pu_host u @ serialize_port (pu_port u))
     @ serialize_path (pu_path u) @ serialize_tail (pu_query u) (pu_fragment u)"
  by (simp add: serialize_def serialize_credentials_def serialize_port_def serialize_tail_def)

lemma parse_port_roundtrip:
  "port_ok scheme port \<Longrightarrow>
   parse_port scheme (case port of None \<Rightarrow> None | Some n \<Rightarrow> Some (show_nat n)) = Some port"
  by (cases port)
     (simp_all add: parse_port_def port_ok_def digits_show_nat parse_nat_show_nat show_nat_nonempty)

lemma userinfo_chars:
  "userinfo_set CHR ''@''" "userinfo_set CHR '':''" "userinfo_set CHR ''/''" "userinfo_set (CHR 0x5C)"
  "userinfo_set CHR ''?''" "userinfo_set CHR ''#''"
  by (simp_all add: userinfo_set_def path_set_def query_set_def)

lemma not_userinfo_plain:
  assumes "\<not> userinfo_set c"
  shows "c \<noteq> CHR ''@''" and "c \<noteq> CHR '':''" and "\<not> ends_authority c"
  using assms userinfo_chars by (auto simp: ends_authority_def is_slash_def)

lemma clean_userinfo_plain:
  assumes "clean userinfo_set s"
  shows "list_all (\<lambda>c. c \<noteq> CHR ''@'') s" and "list_all (\<lambda>c. \<not> ends_authority c) s"
    and "list_all visible s" and "list_all (\<lambda>c. c \<noteq> CHR '':'') s"
proof -
  have n: "\<not> userinfo_set c" if "c \<in> set s" for c
    using assms that by (simp add: clean_def list_all_iff)
  show "list_all (\<lambda>c. c \<noteq> CHR ''@'') s"
    using n not_userinfo_plain(1) by (simp add: list_all_iff)
  show "list_all (\<lambda>c. \<not> ends_authority c) s"
    using n not_userinfo_plain(3) by (simp add: list_all_iff)
  show "list_all visible s"
    using n not_userinfo_visible by (simp add: list_all_iff)
  show "list_all (\<lambda>c. c \<noteq> CHR '':'') s"
    using n not_userinfo_plain(2) by (simp add: list_all_iff)
qed

lemma parse_credentials_roundtrip:
  assumes "clean userinfo_set username" and "clean userinfo_set password"
    and "split_last_at auth = (if username \<noteq> [] \<or> password \<noteq> []
           then Some (username @ (if password \<noteq> [] then CHR '':'' # password else []), hostport)
           else None)"
  shows "parse_credentials (case split_last_at auth of Some (a, b) \<Rightarrow> a | None \<Rightarrow> [])
           = (username, password)"
proof -
  have nc: "list_all (\<lambda>c. c \<noteq> CHR '':'') username"
    by (rule clean_userinfo_plain(4) [OF assms(1)])
  have t: "takeWhile (\<lambda>c. c \<noteq> CHR '':'') (username @ CHR '':'' # password) = username"
    using nc by (simp add: takeWhile_tail list_all_iff)
  have d: "dropWhile (\<lambda>c. c \<noteq> CHR '':'') (username @ CHR '':'' # password) = CHR '':'' # password"
    using nc by (simp add: dropWhile_append3 list_all_iff dropWhile_none)
  have t0: "takeWhile (\<lambda>c. c \<noteq> CHR '':'') username = username"
    using nc by (simp add: list_all_iff)
  have d0: "dropWhile (\<lambda>c. c \<noteq> CHR '':'') username = []"
    using nc by (simp add: list_all_iff)
  have e0: "percent_encode userinfo_set [] = []"
    by (simp add: percent_encode_def)
  show ?thesis
  proof (cases "username \<noteq> [] \<or> password \<noteq> []")
    case False
    with assms(3) show ?thesis by (simp add: parse_credentials_def e0)
  next
    case True
    show ?thesis
    proof (cases "password = []")
      case True
      with \<open>username \<noteq> [] \<or> password \<noteq> []\<close> assms(3) show ?thesis
        by (simp add: parse_credentials_def t0 d0 e0 percent_encode_id [OF assms(1)])
    next
      case False
      with assms(3) show ?thesis
        by (simp add: parse_credentials_def t d percent_encode_id [OF assms(1)]
            percent_encode_id [OF assms(2)])
    qed
  qed
qed



lemma hostport_plain:
  assumes "host_ok host"
  shows "list_all (\<lambda>c. c \<noteq> CHR ''@'') (host @ serialize_port port)"
    and "list_all (\<lambda>c. \<not> ends_authority c) (host @ serialize_port port)"
    and "list_all visible (host @ serialize_port port)"
    and "host @ serialize_port port \<noteq> []"
proof -
  have p: "list_all (\<lambda>c. visible c \<and> \<not> ends_authority c \<and> c \<noteq> CHR ''@'') (serialize_port port)"
  proof (cases port)
    case None
    then show ?thesis by (simp add: serialize_port_def)
  next
    case (Some n)
    have "list_all (\<lambda>c. visible c \<and> \<not> ends_authority c \<and> c \<noteq> CHR ''@'') (show_nat n)"
      using digits_show_nat [of n] is_digit_plain by (auto simp: list_all_iff)
    with Some show ?thesis
      by (simp add: serialize_port_def visible_def ends_authority_def is_slash_def)
  qed
  from assms have h: "list_all (\<lambda>c. visible c \<and> \<not> ends_authority c \<and> c \<noteq> CHR ''@'') host"
    and ne: "host \<noteq> []"
    by (auto simp: host_ok_def list_all_iff)
  from p h show "list_all (\<lambda>c. c \<noteq> CHR ''@'') (host @ serialize_port port)"
    by (auto simp: list_all_iff)
  from p h show "list_all (\<lambda>c. \<not> ends_authority c) (host @ serialize_port port)"
    by (auto simp: list_all_iff)
  from p h show "list_all visible (host @ serialize_port port)"
    by (auto simp: list_all_iff)
  from ne show "host @ serialize_port port \<noteq> []" by simp
qed

lemma split_last_at_authority:
  assumes "clean userinfo_set username" and "clean userinfo_set password" and "host_ok host"
  shows "split_last_at (serialize_credentials username password @ host @ serialize_port port)
     = (if username \<noteq> [] \<or> password \<noteq> []
        then Some (username @ (if password \<noteq> [] then CHR '':'' # password else []),
                   host @ serialize_port port)
        else None)"
proof (cases "username \<noteq> [] \<or> password \<noteq> []")
  case True
  have "split_last_at ((username @ (if password \<noteq> [] then CHR '':'' # password else []))
          @ CHR ''@'' # (host @ serialize_port port))
      = Some (username @ (if password \<noteq> [] then CHR '':'' # password else []),
              host @ serialize_port port)"
    by (rule split_last_at_some) (rule hostport_plain [OF assms(3)])
  with True show ?thesis by (simp add: serialize_credentials_def)
next
  case False
  have "split_last_at (host @ serialize_port port) = None"
    by (rule split_last_at_none) (rule hostport_plain [OF assms(3)])
  with False show ?thesis by (simp add: serialize_credentials_def)
qed

lemma parse_authority_roundtrip:
  assumes "clean userinfo_set username" and "clean userinfo_set password"
    and "host_ok host" and "hp host = Some host" and "port_ok scheme port"
  shows "parse_authority hp scheme
           (serialize_credentials username password @ host @ serialize_port port)
         = Some ((username, password), host, port)"
proof -
  let ?auth = "serialize_credentials username password @ host @ serialize_port port"
  note sl = split_last_at_authority [OF assms(1,2,3), of port]
  have hostport: "(case split_last_at ?auth of Some (a, b) \<Rightarrow> b | None \<Rightarrow> ?auth)
      = host @ serialize_port port"
    by (simp add: sl) (simp add: serialize_credentials_def)
  have cred: "parse_credentials (case split_last_at ?auth of Some (a, b) \<Rightarrow> a | None \<Rightarrow> [])
      = (username, password)"
    by (rule parse_credentials_roundtrip [OF assms(1,2) sl])
  have sh: "split_host False (host @ serialize_port port)
      = (host, case port of None \<Rightarrow> None | Some n \<Rightarrow> Some (show_nat n))"
    using split_host_port [OF assms(3)] by (cases port) (simp_all add: serialize_port_def)
  have ne: "host \<noteq> []" using assms(3) by (simp add: host_ok_def)
  show ?thesis
    unfolding parse_authority_def Let_def hostport cred sh
    using ne assms(4) parse_port_roundtrip [OF assms(5)] by simp
qed

lemma span_append:
  assumes "list_all P xs" and "ys = [] \<or> \<not> P (hd ys)"
  shows "takeWhile P (xs @ ys) = xs" and "dropWhile P (xs @ ys) = ys"
proof -
  from assms(1) have a: "\<And>x. x \<in> set xs \<Longrightarrow> P x" by (simp add: list_all_iff)
  from assms(2) have t: "takeWhile P ys = []" and d: "dropWhile P ys = ys"
    by (cases ys; simp)+
  show "takeWhile P (xs @ ys) = xs" using a t by (simp add: takeWhile_append2)
  show "dropWhile P (xs @ ys) = ys" using a d by (simp add: dropWhile_append2)
qed

lemma path_chars:
  "path_set CHR ''?''" "path_set CHR ''#''" "special_query_set CHR ''#''"
  by (simp_all add: path_set_def query_set_def special_query_set_def)

lemma good_segment_plain:
  assumes "good_segment seg"
  shows "list_all (\<lambda>c. c \<noteq> CHR ''?'' \<and> c \<noteq> CHR ''#'') seg" and "list_all visible seg"
proof -
  have n: "\<not> path_set c" if "c \<in> set seg" for c
    using assms that by (simp add: good_segment_def clean_def list_all_iff)
  show "list_all (\<lambda>c. c \<noteq> CHR ''?'' \<and> c \<noteq> CHR ''#'') seg"
    using n path_chars by (auto simp: list_all_iff)
  show "list_all visible seg"
    using n not_path_visible by (simp add: list_all_iff)
qed

lemma serialize_path_plain:
  assumes "list_all good_segment path"
  shows "list_all (\<lambda>c. c \<noteq> CHR ''?'' \<and> c \<noteq> CHR ''#'') (serialize_path path)"
    and "list_all visible (serialize_path path)"
proof -
  have v: "visible CHR ''/''" by (simp add: visible_def)
  show "list_all (\<lambda>c. c \<noteq> CHR ''?'' \<and> c \<noteq> CHR ''#'') (serialize_path path)"
    using assms good_segment_plain(1) by (induction path) (simp_all add: serialize_path_def)
  show "list_all visible (serialize_path path)"
    using assms good_segment_plain(2) v by (induction path) (simp_all add: serialize_path_def)
qed

lemma parse_fragment_roundtrip:
  assumes "case fragment of None \<Rightarrow> True | Some f \<Rightarrow> clean fragment_set f"
  shows "parse_fragment (case fragment of None \<Rightarrow> [] | Some f \<Rightarrow> CHR ''#'' # f) = fragment"
  using assms by (cases fragment) (simp_all add: parse_fragment_def percent_encode_id)

lemma parse_query_fragment_roundtrip:
  assumes "case query of None \<Rightarrow> True | Some q \<Rightarrow> clean special_query_set q"
    and "case fragment of None \<Rightarrow> True | Some f \<Rightarrow> clean fragment_set f"
  shows "parse_query_fragment (serialize_tail query fragment) = (query, fragment)"
proof (cases query)
  case None
  let ?F = "case fragment of None \<Rightarrow> [] | Some f \<Rightarrow> CHR ''#'' # f"
  have "\<not> (?F \<noteq> [] \<and> hd ?F = CHR ''?'')" by (cases fragment) simp_all
  then have "parse_query_fragment ?F = (None, parse_fragment ?F)"
    by (simp only: parse_query_fragment_def if_False)
  with None parse_fragment_roundtrip [OF assms(2)] show ?thesis
    by (simp add: serialize_tail_def)
next
  case (Some q)
  let ?F = "case fragment of None \<Rightarrow> [] | Some f \<Rightarrow> CHR ''#'' # f"
  from Some assms(1) have cq: "clean special_query_set q" by simp
  then have nq: "list_all (\<lambda>c. c \<noteq> CHR ''#'') q"
    using path_chars(3) by (auto simp: clean_def list_all_iff)
  have F_hd: "?F = [] \<or> \<not> hd ?F \<noteq> CHR ''#''"
    by (cases fragment) simp_all
  note span = span_append [OF nq F_hd]
  have "parse_query_fragment (CHR ''?'' # q @ ?F)
      = (Some (percent_encode special_query_set q), parse_fragment ?F)"
    by (simp add: parse_query_fragment_def span)
  with Some parse_fragment_roundtrip [OF assms(2)] show ?thesis
    by (simp add: serialize_tail_def percent_encode_id [OF cq])
qed

lemma parse_tail_roundtrip:
  assumes "path \<noteq> []" and "list_all good_segment path"
    and "case query of None \<Rightarrow> True | Some q \<Rightarrow> clean special_query_set q"
    and "case fragment of None \<Rightarrow> True | Some f \<Rightarrow> clean fragment_set f"
  shows "parse_tail (serialize_path path @ serialize_tail query fragment) = (path, query, fragment)"
proof -
  from assms(1) obtain seg segs where path: "path = seg # segs" by (cases path) auto
  let ?T = "serialize_tail query fragment"
  let ?F = "case fragment of None \<Rightarrow> [] | Some f \<Rightarrow> CHR ''#'' # f"
  let ?body = "seg @ serialize_path segs"
  have sp: "serialize_path path = CHR ''/'' # ?body"
    by (simp add: path serialize_path_def)
  have after': "(if serialize_path path @ ?T \<noteq> [] \<and> is_slash (hd (serialize_path path @ ?T))
                 then tl (serialize_path path @ ?T) else serialize_path path @ ?T) = ?body @ ?T"
    by (simp add: sp is_slash_def)
  have body_plain: "list_all (\<lambda>c. c \<noteq> CHR ''?'' \<and> c \<noteq> CHR ''#'') ?body"
    using serialize_path_plain(1) [OF assms(2)] by (simp add: sp)
  have T_hd: "?T = [] \<or> \<not> (hd ?T \<noteq> CHR ''?'' \<and> hd ?T \<noteq> CHR ''#'')"
    by (cases query; cases fragment) (simp_all add: serialize_tail_def)
  note span1 = span_append [OF body_plain T_hd]
  have noslash: "list_all (\<lambda>seg. list_all (\<lambda>c. \<not> is_slash c) seg) path"
    using assms(2) by (simp add: list_all_iff good_segment_def)
  have segs: "split_segments [] ?body = path"
    using noslash split_segments_acc [of seg "[]" "serialize_path segs"]
      split_segments_serialized [of segs seg]
    by (simp add: path)
  have built: "build_path [] (split_segments [] ?body) = path"
    using build_path_good [OF assms(1,2), of "[]"] by (simp add: segs)
  have tail: "parse_query_fragment ?T = (query, fragment)"
    by (rule parse_query_fragment_roundtrip [OF assms(3,4)])
  have tw: "takeWhile (\<lambda>c. c \<noteq> CHR ''?'' \<and> c \<noteq> CHR ''#'') (?body @ ?T) = ?body"
    and dw: "dropWhile (\<lambda>c. c \<noteq> CHR ''?'' \<and> c \<noteq> CHR ''#'') (?body @ ?T) = ?T"
    using span1 by blast+
  show ?thesis
    unfolding parse_tail_def after'
    by (simp only: Let_def tw dw built tail)
qed

lemma authority_plain:
  assumes "clean userinfo_set username" and "clean userinfo_set password" and "host_ok host"
  shows "list_all (\<lambda>c. \<not> ends_authority c)
           (serialize_credentials username password @ host @ serialize_port port)"
    and "list_all visible (serialize_credentials username password @ host @ serialize_port port)"
    and "serialize_credentials username password @ host @ serialize_port port \<noteq> []"
proof -
  have c1: "list_all (\<lambda>c. \<not> ends_authority c) (serialize_credentials username password)"
    using clean_userinfo_plain(2) [OF assms(1)] clean_userinfo_plain(2) [OF assms(2)]
    by (simp add: serialize_credentials_def ends_authority_def is_slash_def)
  have c2: "list_all visible (serialize_credentials username password)"
    using clean_userinfo_plain(3) [OF assms(1)] clean_userinfo_plain(3) [OF assms(2)]
    by (simp add: serialize_credentials_def visible_def)
  show "list_all (\<lambda>c. \<not> ends_authority c)
           (serialize_credentials username password @ host @ serialize_port port)"
    using c1 hostport_plain(2) [OF assms(3), of port] by simp
  show "list_all visible (serialize_credentials username password @ host @ serialize_port port)"
    using c2 hostport_plain(3) [OF assms(3), of port] by simp
  show "serialize_credentials username password @ host @ serialize_port port \<noteq> []"
    using hostport_plain(4) [OF assms(3), of port] by simp
qed

lemma parse_after_roundtrip:
  assumes "wf_url hp u"
  shows "parse_after hp (pu_scheme u)
           ((serialize_credentials (pu_username u) (pu_password u) @ pu_host u
               @ serialize_port (pu_port u))
            @ serialize_path (pu_path u) @ serialize_tail (pu_query u) (pu_fragment u))
         = Some u"
proof -
  let ?A = "serialize_credentials (pu_username u) (pu_password u) @ pu_host u
               @ serialize_port (pu_port u)"
  let ?R = "serialize_path (pu_path u) @ serialize_tail (pu_query u) (pu_fragment u)"
  from assms have w: "clean userinfo_set (pu_username u)" "clean userinfo_set (pu_password u)"
      "host_ok (pu_host u)" "hp (pu_host u) = Some (pu_host u)" "port_ok (pu_scheme u) (pu_port u)"
      "pu_path u \<noteq> []" "list_all good_segment (pu_path u)"
      "case pu_query u of None \<Rightarrow> True | Some q \<Rightarrow> clean special_query_set q"
      "case pu_fragment u of None \<Rightarrow> True | Some f \<Rightarrow> clean fragment_set f"
    by (simp_all add: wf_url_def)
  note ap = authority_plain [OF w(1,2,3), of "pu_port u"]
  from w(6) obtain seg segs where "pu_path u = seg # segs" by (cases "pu_path u") auto
  then have R_hd: "?R = [] \<or> \<not> \<not> ends_authority (hd ?R)"
    by (simp add: serialize_path_def ends_authority_def is_slash_def)
  note span = span_append [OF ap(1) R_hd]
  have "\<not> is_slash (hd ?A)"
    using ap(1) ap(3) by (cases ?A) (auto simp: ends_authority_def)
  with ap(3) have strip: "dropWhile is_slash (?A @ ?R) = ?A @ ?R"
    by (cases ?A) auto
  have "parse_after hp (pu_scheme u) (?A @ ?R) =
      Some \<lparr>pu_scheme = pu_scheme u, pu_username = pu_username u, pu_password = pu_password u,
            pu_host = pu_host u, pu_port = pu_port u, pu_path = pu_path u, pu_query = pu_query u,
            pu_fragment = pu_fragment u\<rparr>"
    unfolding parse_after_def Let_def strip span
    by (simp add: parse_authority_roundtrip [where hp = hp, OF w(1,2,3,4,5)]
        parse_tail_roundtrip [OF w(6,7,8,9)])
  then show ?thesis by simp
qed

lemma serialize_visible:
  assumes "wf_url hp u"
  shows "list_all visible (serialize u)"
proof -
  from assms have w: "clean userinfo_set (pu_username u)" "clean userinfo_set (pu_password u)"
      "host_ok (pu_host u)" "list_all good_segment (pu_path u)"
      "case pu_query u of None \<Rightarrow> True | Some q \<Rightarrow> clean special_query_set q"
      "case pu_fragment u of None \<Rightarrow> True | Some f \<Rightarrow> clean fragment_set f"
      and s: "pu_scheme u = ''http'' \<or> pu_scheme u = ''https''"
    by (simp_all add: wf_url_def)
  have sv: "list_all visible (pu_scheme u @ ''://'')"
    using s by (auto simp: visible_def)
  have qv: "list_all visible (case pu_query u of None \<Rightarrow> [] | Some q \<Rightarrow> CHR ''?'' # q)"
    using w(5) not_query_visible by (cases "pu_query u") (auto simp: clean_def list_all_iff visible_def)
  have fv: "list_all visible (case pu_fragment u of None \<Rightarrow> [] | Some f \<Rightarrow> CHR ''#'' # f)"
    using w(6) not_fragment_visible
    by (cases "pu_fragment u") (auto simp: clean_def list_all_iff visible_def)
  show ?thesis
    unfolding serialize_parts
    using sv authority_plain(2) [OF w(1,2,3), of "pu_port u"] serialize_path_plain(2) [OF w(4)] qv fv
    by (simp add: serialize_tail_def)
qed

lemma parse_http_roundtrip:
  assumes "wf_url hp u"
  shows "parse_http hp (serialize u) = Some u"
proof -
  let ?rest = "(serialize_credentials (pu_username u) (pu_password u) @ pu_host u
               @ serialize_port (pu_port u))
            @ serialize_path (pu_path u) @ serialize_tail (pu_query u) (pu_fragment u)"
  have p: "preprocess (serialize u) = serialize u"
    by (rule preprocess_visible) (rule serialize_visible [OF assms])
  from assms have "pu_scheme u = ''http'' \<or> pu_scheme u = ''https''"
    by (simp add: wf_url_def)
  then show ?thesis
  proof
    assume s: "pu_scheme u = ''http''"
    have e: "serialize u = ''http://'' @ ?rest"
      by (simp add: serialize_parts s)
    have "parse_http hp (''http://'' @ ?rest) = parse_after hp ''http'' ?rest"
      unfolding parse_http_def p [unfolded e]
      by (simp add: ascii_lower_def)
    with parse_after_roundtrip [OF assms] show ?thesis
      by (simp add: e s)
  next
    assume s: "pu_scheme u = ''https''"
    have e: "serialize u = ''https://'' @ ?rest"
      by (simp add: serialize_parts s)
    have "parse_http hp (''https://'' @ ?rest) = parse_after hp ''https'' ?rest"
      unfolding parse_http_def p [unfolded e]
      by (simp add: ascii_lower_def)
    with parse_after_roundtrip [OF assms] show ?thesis
      by (simp add: e s)
  qed
qed

lemma parse_port_ok: "parse_port scheme pr = Some port \<Longrightarrow> port_ok scheme port"
  by (auto simp: parse_port_def port_ok_def split: option.splits if_splits)

lemma parse_authority_wf:
  assumes "host_parser_laws hp" and "parse_authority hp scheme auth = Some ((un, pw), h, port)"
  shows "clean userinfo_set un" and "clean userinfo_set pw" and "host_ok h" and "hp h = Some h"
    and "port_ok scheme port"
proof -
  let ?cred = "case split_last_at auth of Some (a, b) \<Rightarrow> a | None \<Rightarrow> []"
  let ?hostport = "case split_last_at auth of Some (a, b) \<Rightarrow> b | None \<Rightarrow> auth"
  from assms(2) obtain raw where p: "parse_port scheme (snd (split_host False ?hostport)) = Some port"
      and h: "hp raw = Some h" and c: "parse_credentials ?cred = (un, pw)"
    unfolding parse_authority_def Let_def
    by (auto split: option.splits if_splits)
  from h assms(1) show "host_ok h" and "hp h = Some h"
    unfolding host_parser_laws_def by blast+
  from p show "port_ok scheme port" by (rule parse_port_ok)
  from c have "un = percent_encode userinfo_set (takeWhile (\<lambda>c. c \<noteq> CHR '':'') ?cred)"
    and "pw = percent_encode userinfo_set (drop 1 (dropWhile (\<lambda>c. c \<noteq> CHR '':'') ?cred))"
    by (simp_all add: parse_credentials_def)
  then show "clean userinfo_set un" and "clean userinfo_set pw"
    using percent_encode_clean [of userinfo_set] hexish_not_userinfo by blast+
qed

lemma parse_fragment_wf:
  "case parse_fragment rest of None \<Rightarrow> True | Some f \<Rightarrow> clean fragment_set f"
  using percent_encode_clean [of fragment_set] hexish_not_fragment
  by (simp add: parse_fragment_def)

lemma parse_query_fragment_wf:
  assumes "parse_query_fragment rest = (q, f)"
  shows "case q of None \<Rightarrow> True | Some q' \<Rightarrow> clean special_query_set q'"
    and "case f of None \<Rightarrow> True | Some f' \<Rightarrow> clean fragment_set f'"
proof -
  from assms show "case q of None \<Rightarrow> True | Some q' \<Rightarrow> clean special_query_set q'"
    using percent_encode_clean [of special_query_set] hexish_not_query
    by (auto simp: parse_query_fragment_def split: if_splits)
  from assms have "f = parse_fragment rest
      \<or> f = parse_fragment (dropWhile (\<lambda>c. c \<noteq> CHR ''#'') (tl rest))"
    by (auto simp: parse_query_fragment_def split: if_splits)
  then show "case f of None \<Rightarrow> True | Some f' \<Rightarrow> clean fragment_set f'"
    using parse_fragment_wf by auto
qed

lemma parse_tail_wf:
  assumes "parse_tail after = (path, q, f)"
  shows "path \<noteq> []" and "list_all good_segment path"
    and "case q of None \<Rightarrow> True | Some q' \<Rightarrow> clean special_query_set q'"
    and "case f of None \<Rightarrow> True | Some f' \<Rightarrow> clean fragment_set f'"
proof -
  from assms obtain s rest where p: "path = build_path [] (split_segments [] s)"
      and r: "parse_query_fragment rest = (q, f)"
    unfolding parse_tail_def Let_def by auto
  have "build_path [] (split_segments [] s) \<noteq> []
      \<and> list_all good_segment (build_path [] (split_segments [] s))"
    by (rule build_path_result) (simp_all add: split_segments_nonempty split_segments_no_slash)
  with p show "path \<noteq> []" and "list_all good_segment path" by simp_all
  from r show "case q of None \<Rightarrow> True | Some q' \<Rightarrow> clean special_query_set q'"
    and "case f of None \<Rightarrow> True | Some f' \<Rightarrow> clean fragment_set f'"
    by (rule parse_query_fragment_wf)+
qed

lemma parse_after_wf:
  assumes "host_parser_laws hp" and "scheme = ''http'' \<or> scheme = ''https''"
    and "parse_after hp scheme r = Some u"
  shows "wf_url hp u"
proof -
  from assms(3) obtain auth after un pw h port path q f
    where a: "parse_authority hp scheme auth = Some ((un, pw), h, port)"
      and t: "parse_tail after = (path, q, f)"
      and u: "u = \<lparr>pu_scheme = scheme, pu_username = un, pu_password = pw, pu_host = h,
                   pu_port = port, pu_path = path, pu_query = q, pu_fragment = f\<rparr>"
    unfolding parse_after_def Let_def
    by (auto split: option.splits prod.splits)
  show ?thesis
    unfolding wf_url_def u
    using assms(2) parse_authority_wf [OF assms(1) a] parse_tail_wf [OF t]
    by simp
qed

lemma parse_http_wf:
  assumes "host_parser_laws hp" and "parse_http hp s = Some u"
  shows "wf_url hp u"
proof -
  from assms(2) obtain scheme r where s: "scheme = ''http'' \<or> scheme = ''https''"
      and p: "parse_after hp scheme r = Some u"
    unfolding parse_http_def Let_def by (auto split: if_splits)
  show ?thesis by (rule parse_after_wf [OF assms(1) s p])
qed

lemma serialize_has_scheme:
  assumes "wf_url hp u"
  shows "has_http_scheme (serialize u)"
proof -
  from assms have "pu_scheme u = ''http'' \<or> pu_scheme u = ''https''"
    by (simp add: wf_url_def)
  then show ?thesis
    by (auto simp: serialize_parts has_http_scheme_def ascii_lower_def)
qed


section \<open>URL Normalizer: idempotence\<close>

text \<open>
  A platform follows the URL Standard with host parser \<open>hp\<close> when \<open>hp\<close> obeys the two laws
  and, on every string with an \<open>http\<close> or \<open>https\<close> scheme, \<open>new URL\<close> throws exactly where
  the parser fails and \<open>href\<close> is the serialisation of the parsed record.
\<close>

definition follows_url_standard :: "'w platform \<Rightarrow> (string \<Rightarrow> string option) \<Rightarrow> bool" where
  "follows_url_standard pf hp \<longleftrightarrow>
     host_parser_laws hp
     \<and> (\<forall>s. has_http_scheme s \<longrightarrow>
            map_option href (new_URL pf s) = map_option serialize (parse_http hp s))"

definition ascii_domain :: "string \<Rightarrow> string option" where
  \<comment> \<open>A host parser for domains of ASCII letters, hyphens and dots: they are lower-cased.\<close>
  "ascii_domain h =
     (let l = map ascii_lower h
      in if l \<noteq> [] \<and> list_all (\<lambda>c. (97 \<le> (of_char c :: nat) \<and> (of_char c :: nat) \<le> 122)
                                  \<or> (of_char c :: nat) \<in> {45, 46}) l
         then Some l else None)"

definition std_new_URL :: "string \<Rightarrow> url option" where
  "std_new_URL s = map_option url_of (parse_http ascii_domain s)"

definition std_platform :: "script platform" where
  "std_platform = demo_platform\<lparr>new_URL := std_new_URL\<rparr>"

lemma with_scheme_has_scheme: "has_http_scheme (with_scheme s)"
  by (simp add: with_scheme_def has_http_scheme_def ascii_lower_def)

lemma href_reparsed:
  assumes "follows_url_standard pf hp" and "parse_http hp s = Some u"
  shows "trim (serialize u) = serialize u" and "has_http_scheme (serialize u)"
    and "\<exists>again. new_URL pf (serialize u) = Some again \<and> href again = serialize u"
proof -
  from assms(1) have laws: "host_parser_laws hp"
    and std: "\<And>s. has_http_scheme s \<Longrightarrow>
                map_option href (new_URL pf s) = map_option serialize (parse_http hp s)"
    by (simp_all add: follows_url_standard_def)
  have wf: "wf_url hp u" by (rule parse_http_wf [OF laws assms(2)])
  show "trim (serialize u) = serialize u"
    by (rule trim_visible) (rule serialize_visible [OF wf])
  show h: "has_http_scheme (serialize u)" by (rule serialize_has_scheme [OF wf])
  from std [OF h] parse_http_roundtrip [OF wf]
  show "\<exists>again. new_URL pf (serialize u) = Some again \<and> href again = serialize u"
    by auto
qed

lemma href_serialized:
  assumes "follows_url_standard pf hp" and "new_URL pf (with_scheme (trim x)) = Some parsed"
  shows "\<exists>u. parse_http hp (with_scheme (trim x)) = Some u \<and> href parsed = serialize u"
proof -
  from assms(1) have "map_option href (new_URL pf (with_scheme (trim x)))
      = map_option serialize (parse_http hp (with_scheme (trim x)))"
    using with_scheme_has_scheme [of "trim x"] by (simp add: follows_url_standard_def)
  with assms(2) show ?thesis
    by (cases "parse_http hp (with_scheme (trim x))") auto
qed

text \<open>
  C10: on a platform that follows the URL Standard, for every input whose trimmed,
  scheme-prefixed form parses as a URL, the output of \<open>normalizeUrl\<close> is \<open>href\<close> of that URL, it
  carries an \<open>http\<close> or \<open>https\<close> scheme, it is in canonical form (trimming leaves it unchanged
  and it parses to a URL with the same \<open>href\<close>), and \<open>normalizeUrl\<close> applied to it returns it
  unchanged.
\<close>

theorem normalizeUrl_idempotent:
  assumes "follows_url_standard pf hp" and "new_URL pf (with_scheme (trim x)) = Some parsed"
  shows "normalizeUrl pf x = href parsed
     \<and> has_http_scheme (normalizeUrl pf x)
     \<and> trim (normalizeUrl pf x) = normalizeUrl pf x
     \<and> map_option href (new_URL pf (normalizeUrl pf x)) = Some (normalizeUrl pf x)
     \<and> normalizeUrl pf (normalizeUrl pf x) = normalizeUrl pf x"
proof -
  from href_serialized [OF assms] obtain u
    where p: "parse_http hp (with_scheme (trim x)) = Some u" and s: "href parsed = serialize u"
    by auto
  have n: "normalizeUrl pf x = serialize u"
    using assms(2) s by (simp add: normalizeUrl_def)
  note r = href_reparsed [OF assms(1) p]
  from r(3) obtain again where a: "new_URL pf (serialize u) = Some again" "href again = serialize u"
    by auto
  have "normalizeUrl pf (serialize u) = serialize u"
    using r(1,2) a by (simp add: normalizeUrl_def with_scheme_def)
  with n s r(1,2) a show ?thesis by simp
qed

text \<open>
  Where the trimmed, scheme-prefixed form does not parse, \<open>normalizeUrl\<close> returns its input,
  so that on such a platform it is idempotent on every string.
\<close>

lemma normalizeUrl_idempotent_total:
  assumes "follows_url_standard pf hp"
  shows "normalizeUrl pf (normalizeUrl pf x) = normalizeUrl pf x"
proof (cases "new_URL pf (with_scheme (trim x))")
  case None
  then have "normalizeUrl pf x = x" by (simp add: normalizeUrl_def)
  then show ?thesis by simp
next
  case (Some parsed)
  from href_serialized [OF assms Some] obtain u
    where p: "parse_http hp (with_scheme (trim x)) = Some u" and s: "href parsed = serialize u"
    by auto
  have n: "normalizeUrl pf x = serialize u"
    using Some s by (simp add: normalizeUrl_def)
  note r = href_reparsed [OF assms p]
  from r(3) obtain again where a: "new_URL pf (serialize u) = Some again" "href again = serialize u"
    by auto
  have "normalizeUrl pf (serialize u) = serialize u"
    using r(1,2) a by (simp add: normalizeUrl_def with_scheme_def)
  with n show ?thesis by simp
qed

lemma ascii_domain_laws: "host_parser_laws ascii_domain"
  unfolding host_parser_laws_def
proof (intro allI impI)
  fix h a
  assume "ascii_domain h = Some a"
  then have ne: "a \<noteq> []"
    and ch: "\<And>c. c \<in> set a \<Longrightarrow>
        (97 \<le> (of_char c :: nat) \<and> (of_char c :: nat) \<le> 122) \<or> (of_char c :: nat) \<in> {45, 46}"
    by (auto simp: ascii_domain_def Let_def list_all_iff split: if_splits)
  have low: "map ascii_lower a = a"
  proof (rule map_idI)
    fix c
    assume "c \<in> set a"
    from ch [OF this] have "\<not> (65 \<le> (of_char c :: nat) \<and> (of_char c :: nat) \<le> 90)" by auto
    then show "ascii_lower c = c" unfolding ascii_lower_def Let_def by auto
  qed
  have v: "list_all visible a"
    using ch by (fastforce simp: list_all_iff visible_def)
  have p: "list_all (\<lambda>c. \<not> ends_authority c \<and> c \<noteq> CHR ''@'') a"
    using ch by (fastforce simp: list_all_iff ends_authority_def is_slash_def)
  have b: "list_all (\<lambda>c. c \<noteq> CHR '':'' \<and> c \<noteq> CHR ''['' \<and> c \<noteq> CHR '']'') a"
    using ch by (fastforce simp: list_all_iff)
  have "ascii_domain a = Some a"
    using ne ch by (simp add: ascii_domain_def low list_all_iff)
  with ne v p b show "host_ok a \<and> ascii_domain a = Some a"
    by (simp add: host_ok_def)
qed

lemma std_platform_new_URL: "new_URL std_platform = std_new_URL"
  by (simp add: std_platform_def)

lemma std_platform_follows: "follows_url_standard std_platform ascii_domain"
  by (simp add: follows_url_standard_def ascii_domain_laws std_platform_new_URL std_new_URL_def
      option.map_comp comp_def url_of_def)

lemma std_trim_example: "trim '' Example.com/a/../b c '' = ''Example.com/a/../b c''"
  by (simp add: trim_def js_whitespace_def)

lemma std_with_scheme_example:
  "with_scheme ''Example.com/a/../b c'' = ''https://Example.com/a/../b c''"
  by (simp add: with_scheme_def has_http_scheme_def ascii_lower_def)

lemma std_parse_example:
  "std_new_URL ''https://Example.com/a/../b c''
     = Some \<lparr>href = ''https://example.com/b%20c'', hostname = ''example.com'', pathname = ''/b%20c''\<rparr>"
  by code_simp

lemma std_parse_example_again:
  "std_new_URL ''https://example.com/b%20c''
     = Some \<lparr>href = ''https://example.com/b%20c'', hostname = ''example.com'', pathname = ''/b%20c''\<rparr>"
  by code_simp

lemma std_example_parses:
  "new_URL std_platform (with_scheme (trim '' Example.com/a/../b c ''))
     = Some \<lparr>href = ''https://example.com/b%20c'', hostname = ''example.com'', pathname = ''/b%20c''\<rparr>"
  by (simp add: std_trim_example std_with_scheme_example std_platform_new_URL std_parse_example)

theorem normalizeUrl_idempotent_witness:
  "follows_url_standard std_platform ascii_domain
   \<and> new_URL std_platform (with_scheme (trim '' Example.com/a/../b c ''))
       = Some \<lparr>href = ''https://example.com/b%20c'', hostname = ''example.com'',
               pathname = ''/b%20c''\<rparr>
   \<and> normalizeUrl std_platform '' Example.com/a/../b c '' = ''https://example.com/b%20c''
   \<and> has_http_scheme ''https://example.com/b%20c''
   \<and> new_URL std_platform ''https://example.com/b%20c''
       = Some \<lparr>href = ''https://example.com/b%20c'', hostname = ''example.com'',
               pathname = ''/b%20c''\<rparr>
   \<and> normalizeUrl std_platform ''https://example.com/b%20c'' = ''https://example.com/b%20c''"
proof -
  note t = normalizeUrl_idempotent [OF std_platform_follows std_example_parses]
  have n: "normalizeUrl std_platform '' Example.com/a/../b c '' = ''https://example.com/b%20c''"
    using t by simp
  have h: "has_http_scheme ''https://example.com/b%20c''"
    using t unfolding n by simp
  have i: "normalizeUrl std_platform ''https://example.com/b%20c'' = ''https://example.com/b%20c''"
    using t unfolding n by simp
  from std_platform_follows std_example_parses n h i show ?thesis
    by (simp add: std_platform_new_URL std_parse_example_again)
qed

end
